theory Spec2Isabelle
  imports Main
begin

section \<open>The bracket-tag syntax checker of tagunmatched.py\<close>

text \<open>
  A shallow embedding of the class \<open>SyntaxChecker\<close> and of \<open>check_syntax\<close>.

  Characters are the code points 0 to 255 of a Python string (HOL's \<open>char\<close>). The
  escape marker of the source is the backquote (code point 0x60).

  The mutable fields of the object are a record that every method takes and returns.
  What \<open>print\<close> writes is the field \<open>stdout\<close>. A raised exception is the left
  summand of the result; \<open>IndexError\<close> is what \<open>self.code[self.pos]\<close> raises out
  of range.
\<close>

subsection \<open>Data\<close>

text \<open>
  The messages of the source are Japanese string literals; each constructor stands for one
  of them, in the order of the source, with the names that the f-strings interpolate as
  arguments. The names are those of the taxonomy of the specification; the source has
  three distinct messages for a lone escape marker (top level, quoted, unquoted).
\<close>

datatype message =
    DanglingEscape
  | MissingTagName
  | EscapeInTagName
  | InvalidTagNameStart
  | UnterminatedTagName
  | InvalidTagNameChar
  | UnterminatedQuotedArgument
  | DanglingEscapeQuoted
  | DanglingEscapeUnquoted
  | IllegalBracketInArgument
  | MissingTagTerminator
  | CloseOfSingleTag string
  | CloseWithoutOpen string
  | MismatchedClose string string
  | UnknownTag string
  | UnclosedTags

datatype exn =
    DSLSyntaxError nat nat message "string list"
  | IndexError

datatype printed =
    ErrMsg nat nat message
  | StackDump "string list"

record checker =
  code :: string
  single_tags :: "string set"
  group_tags :: "string set"
  pos :: nat
  line :: nat
  col :: nat
  stack :: "string list"
  raise_exception :: bool
  stdout :: "printed list"

text \<open>
  Inside \<open>parse_tag\<close> and \<open>check\<close> a loop either goes on with a value or makes the
  enclosing method return a boolean.
\<close>

datatype 'a flow =
    Return bool checker
  | Continue 'a

definition backquote :: char where
  "backquote = CHR 0x60"

definition dquote :: char where
  "dquote = CHR 0x22"

definition SyntaxChecker :: "string \<Rightarrow> string set \<Rightarrow> string set \<Rightarrow> bool \<Rightarrow> checker" where
  "SyntaxChecker c singles groups raise_exc =
     \<lparr>code = c, single_tags = singles, group_tags = groups, pos = 0, line = 1, col = 1,
      stack = [], raise_exception = raise_exc, stdout = []\<rparr>"

subsection \<open>Cursor\<close>

definition current_char :: "checker \<Rightarrow> char option" where
  "current_char s = (if pos s < length (code s) then Some (code s ! pos s) else None)"

definition advance :: "checker \<Rightarrow> exn + (char \<times> checker)" where
  "advance s =
     (if pos s < length (code s) then
        (let ch = code s ! pos s;
             s1 = s\<lparr>pos := pos s + 1\<rparr>
         in if ch = CHR 0x0A then Inr (ch, s1\<lparr>line := line s1 + 1, col := 1\<rparr>)
            else Inr (ch, s1\<lparr>col := col s1 + 1\<rparr>))
      else Inl IndexError)"

definition error :: "message \<Rightarrow> checker \<Rightarrow> exn + (bool \<times> checker)" where
  "error msg s =
     (if raise_exception s then Inl (DSLSyntaxError (line s) (col s) msg (stack s))
      else Inr (False, s\<lparr>stdout := stdout s @ [ErrMsg (line s) (col s) msg, StackDump (stack s)]\<rparr>))"

text \<open>The statement \<open>return self.error(msg)\<close> inside a loop of a method.\<close>

definition return_error :: "message \<Rightarrow> checker \<Rightarrow> exn + 'a flow" where
  "return_error msg s =
     (case error msg s of Inl e \<Rightarrow> Inl e | Inr (b, s1) \<Rightarrow> Inr (Return b s1))"

definition is_whitespace :: "char \<Rightarrow> bool" where
  "is_whitespace ch = (ch \<in> {CHR '' '', CHR 0x09, CHR 0x0A, CHR 0x0D})"

text \<open>\<open>str.isalnum\<close> of Python on the code points 0 to 255.\<close>

definition isalnum :: "char \<Rightarrow> bool" where
  "isalnum ch =
     (let n = (of_char ch :: nat)
      in (48 \<le> n \<and> n \<le> 57) \<or> (65 \<le> n \<and> n \<le> 90) \<or> (97 \<le> n \<and> n \<le> 122)
         \<or> n = 170 \<or> n = 178 \<or> n = 179 \<or> n = 181 \<or> n = 185 \<or> n = 186
         \<or> (188 \<le> n \<and> n \<le> 190) \<or> (192 \<le> n \<and> n \<le> 214)
         \<or> (216 \<le> n \<and> n \<le> 246) \<or> 248 \<le> n)"

function skip_whitespace :: "checker \<Rightarrow> exn + checker" where
  "skip_whitespace s =
     (case current_char s of
        None \<Rightarrow> Inr s
      | Some ch \<Rightarrow>
          if is_whitespace ch then
            (case advance s of Inl e \<Rightarrow> Inl e | Inr (_, s1) \<Rightarrow> skip_whitespace s1)
          else Inr s)"
  by pat_completeness auto
termination
  by (relation "measure (\<lambda>s. length (code s) - pos s)")
     (auto simp: advance_def current_char_def Let_def split: if_splits)


lemma advance_Inr:
  "advance s = Inr (ch, s1) \<Longrightarrow> code s1 = code s \<and> pos s1 = Suc (pos s) \<and> pos s < length (code s)"
  by (auto simp: advance_def Let_def split: if_splits)

lemma skip_whitespace_Inr:
  "skip_whitespace s = Inr s1 \<Longrightarrow> code s1 = code s \<and> pos s \<le> pos s1"
proof (induction s rule: skip_whitespace.induct)
  case (1 s)
  show ?case
  proof (cases "current_char s")
    case None
    with "1.prems" show ?thesis by simp
  next
    case (Some ch)
    show ?thesis
    proof (cases "is_whitespace ch")
      case False
      with Some "1.prems" show ?thesis by simp
    next
      case True
      with Some "1.prems" obtain c s2 where a: "advance s = Inr (c, s2)"
        and r: "skip_whitespace s2 = Inr s1"
        by (auto split: sum.splits)
      from "1.IH" [OF Some True a refl r] advance_Inr [OF a] show ?thesis by simp
    qed
  qed
qed

subsection \<open>Tag Construct Parser\<close>

text \<open>The loop over the rest of the tag name (\<open>while True\<close>, lines 115 to 126).\<close>

function parse_name_rest :: "string \<Rightarrow> checker \<Rightarrow> exn + (string \<times> checker) flow" where
  "parse_name_rest tag_name s =
     (case current_char s of
        None \<Rightarrow> return_error UnterminatedTagName s
      | Some ch \<Rightarrow>
          if is_whitespace ch \<or> ch = CHR '']'' then Inr (Continue (tag_name, s))
          else if ch = backquote then return_error EscapeInTagName s
          else if \<not> (isalnum ch \<or> ch \<in> {CHR ''#'', CHR ''_'', CHR ''-''}) then
            return_error InvalidTagNameChar s
          else
            (case advance s of
               Inl e \<Rightarrow> Inl e
             | Inr (_, s1) \<Rightarrow> parse_name_rest (tag_name @ [ch]) s1))"
  by pat_completeness auto
termination
  by (relation "measure (\<lambda>(n, s). length (code s) - pos s)")
     (auto simp: advance_def current_char_def Let_def split: if_splits)

text \<open>The loop over a double-quoted argument (\<open>while True\<close>, lines 143 to 157).\<close>

function parse_quoted :: "checker \<Rightarrow> exn + checker flow" where
  "parse_quoted s =
     (case current_char s of
        None \<Rightarrow> return_error UnterminatedQuotedArgument s
      | Some ch \<Rightarrow>
          if ch = backquote then
            (case advance s of
               Inl e \<Rightarrow> Inl e
             | Inr (_, s1) \<Rightarrow>
                 (case current_char s1 of
                    None \<Rightarrow> return_error DanglingEscapeQuoted s1
                  | Some _ \<Rightarrow>
                      (case advance s1 of
                         Inl e \<Rightarrow> Inl e
                       | Inr (_, s2) \<Rightarrow> parse_quoted s2)))
          else if ch = dquote then
            (case advance s of
               Inl e \<Rightarrow> Inl e
             | Inr (_, s1) \<Rightarrow> Inr (Continue s1))
          else
            (case advance s of
               Inl e \<Rightarrow> Inl e
             | Inr (_, s1) \<Rightarrow> parse_quoted s1))"
  by pat_completeness auto
termination
  by (relation "measure (\<lambda>s. length (code s) - pos s)")
     (auto simp: advance_def current_char_def Let_def split: if_splits)


lemma parse_quoted_Continue:
  "parse_quoted s = Inr (Continue s1) \<Longrightarrow> code s1 = code s \<and> pos s < pos s1"
proof (induction s rule: parse_quoted.induct)
  case (1 s)
  from "1.prems" obtain ch where c: "current_char s = Some ch"
    by (cases "current_char s") (auto simp: return_error_def error_def split: if_splits)
  from "1.prems" c obtain x s2 where a: "advance s = Inr (x, s2)"
    by (cases "advance s") (auto split: if_splits)
  note a' = advance_Inr [OF a]
  show ?case
  proof (cases "ch = backquote")
    case True
    from "1.prems" c True a obtain d where c2: "current_char s2 = Some d"
      by (cases "current_char s2") (auto simp: return_error_def error_def split: if_splits)
    from "1.prems" c True a c2 obtain y s3 where b: "advance s2 = Inr (y, s3)"
      and r: "parse_quoted s3 = Inr (Continue s1)"
      by (cases "advance s2") auto
    from "1.IH"(1) [OF c True a refl c2 b refl r] advance_Inr [OF b] a'
    show ?thesis by simp
  next
    case False
    show ?thesis
    proof (cases "ch = dquote")
      case True
      with "1.prems" c False a a' show ?thesis by auto
    next
      case nq: False
      with "1.prems" c False a have r: "parse_quoted s2 = Inr (Continue s1)" by simp
      from "1.IH"(2) [OF c False nq a refl r] a' show ?thesis by simp
    qed
  qed
qed

lemma skip_if_Inr:
  "(if w then skip_whitespace s else Inr s) = Inr s1 \<Longrightarrow> code s1 = code s \<and> pos s \<le> pos s1"
  by (cases w) (simp_all add: skip_whitespace_Inr)

text \<open>
  The loop over the arguments (\<open>while\<close>, lines 132 to 170). After the whitespace is
  skipped inside the loop, the source tests the current character against the closing
  bracket and the double quote only; at the end of the input both tests fail and the
  unquoted branch calls \<open>advance\<close>.
\<close>

function parse_args :: "checker \<Rightarrow> exn + checker flow" where
  "parse_args s =
     (case current_char s of
        None \<Rightarrow> Inr (Continue s)
      | Some c \<Rightarrow>
          if c = CHR '']'' then Inr (Continue s)
          else
            (case (if is_whitespace c then skip_whitespace s else Inr s) of
               Inl e \<Rightarrow> Inl e
             | Inr s1 \<Rightarrow>
                 if is_whitespace c \<and> current_char s1 = Some CHR '']'' then Inr (Continue s1)
                 else if current_char s1 = Some dquote then
                   (case advance s1 of
                      Inl e \<Rightarrow> Inl e
                    | Inr (_, s2) \<Rightarrow>
                        (case parse_quoted s2 of
                           Inl e \<Rightarrow> Inl e
                         | Inr (Return b s3) \<Rightarrow> Inr (Return b s3)
                         | Inr (Continue s3) \<Rightarrow> parse_args s3))
                 else if current_char s1 = Some backquote then
                   (case advance s1 of
                      Inl e \<Rightarrow> Inl e
                    | Inr (_, s2) \<Rightarrow>
                        (case current_char s2 of
                           None \<Rightarrow> return_error DanglingEscapeUnquoted s2
                         | Some _ \<Rightarrow>
                             (case advance s2 of
                                Inl e \<Rightarrow> Inl e
                              | Inr (_, s3) \<Rightarrow> parse_args s3)))
                 else if current_char s1 = Some CHR ''['' then
                   return_error IllegalBracketInArgument s1
                 else
                   (case advance s1 of
                      Inl e \<Rightarrow> Inl e
                    | Inr (_, s2) \<Rightarrow> parse_args s2)))"
  by pat_completeness auto
termination
proof (relation "measure (\<lambda>s. length (code s) - pos s)", goal_cases)
  case 1
  show ?case by simp
next
  case (2 s c s1 p x s2 f s3)
  from 2(3) have a: "code s1 = code s \<and> pos s \<le> pos s1" by (rule skip_if_Inr)
  from 2(6,7) have b: "advance s1 = Inr (x, s2)" by simp
  from 2(8,9) have c: "parse_quoted s2 = Inr (Continue s3)" by simp
  from a advance_Inr [OF b] parse_quoted_Continue [OF c] show ?case by auto
next
  case (3 s c s1 p x s2 d q y s3)
  from 3(3) have a: "code s1 = code s \<and> pos s \<le> pos s1" by (rule skip_if_Inr)
  from 3(7,8) have b: "advance s1 = Inr (x, s2)" by simp
  from 3(10,11) have c: "advance s2 = Inr (y, s3)" by simp
  from a advance_Inr [OF b] advance_Inr [OF c] show ?case by auto
next
  case (4 s c s1 p x s2)
  from 4(3) have a: "code s1 = code s \<and> pos s \<le> pos s1" by (rule skip_if_Inr)
  from 4(8,9) have b: "advance s1 = Inr (x, s2)" by simp
  from a advance_Inr [OF b] show ?case by auto
qed


text \<open>
  \<open>parse_tag\<close> up to the consumed closing bracket (lines 93 to 175): the closing
  marker, the tag name, the arguments and the terminator. It goes on with
  \<open>is_closing\<close>, \<open>tag_name\<close> and the checker.
\<close>

definition tag_construct :: "checker \<Rightarrow> exn + (bool \<times> string \<times> checker) flow" where
  "tag_construct s =
     (case advance s of
        Inl e \<Rightarrow> Inl e
      | Inr (_, s1) \<Rightarrow>
          (case (if current_char s1 = Some CHR ''/'' then
                   (case advance s1 of
                      Inl e \<Rightarrow> Inl e
                    | Inr (_, s2) \<Rightarrow> Inr (True, s2))
                 else Inr (False, s1)) of
             Inl e \<Rightarrow> Inl e
           | Inr (is_closing, s2) \<Rightarrow>
               (case current_char s2 of
                  None \<Rightarrow> return_error MissingTagName s2
                | Some ch \<Rightarrow>
                    if ch = backquote then return_error EscapeInTagName s2
                    else if \<not> (isalnum ch \<or> ch = CHR ''#'') then
                      return_error InvalidTagNameStart s2
                    else
                      (case advance s2 of
                         Inl e \<Rightarrow> Inl e
                       | Inr (_, s3) \<Rightarrow>
                           (case parse_name_rest [ch] s3 of
                              Inl e \<Rightarrow> Inl e
                            | Inr (Return b s4) \<Rightarrow> Inr (Return b s4)
                            | Inr (Continue (tag_name, s4)) \<Rightarrow>
                                (case skip_whitespace s4 of
                                   Inl e \<Rightarrow> Inl e
                                 | Inr s5 \<Rightarrow>
                                     (case parse_args s5 of
                                        Inl e \<Rightarrow> Inl e
                                      | Inr (Return b s6) \<Rightarrow> Inr (Return b s6)
                                      | Inr (Continue s6) \<Rightarrow>
                                          if current_char s6 \<noteq> Some CHR '']'' then
                                            return_error MissingTagTerminator s6
                                          else
                                            (case advance s6 of
                                               Inl e \<Rightarrow> Inl e
                                             | Inr (_, s7) \<Rightarrow>
                                                 Inr (Continue (is_closing, tag_name, s7))))))))))"

subsection \<open>Nesting Matcher\<close>

text \<open>
  The end of \<open>parse_tag\<close> (lines 178 to 194). The stack is a Python list: \<open>append\<close>
  adds at the end and \<open>pop\<close> removes the last element.
\<close>

definition nesting_matcher :: "bool \<Rightarrow> string \<Rightarrow> checker \<Rightarrow> exn + (bool \<times> checker)" where
  "nesting_matcher is_closing tag_name s =
     (if is_closing then
        if tag_name \<in> single_tags s then error (CloseOfSingleTag tag_name) s
        else if stack s = [] then error (CloseWithoutOpen tag_name) s
        else
          (let last_tag = last (stack s);
               s1 = s\<lparr>stack := butlast (stack s)\<rparr>
           in if last_tag \<noteq> tag_name then error (MismatchedClose tag_name last_tag) s1
              else Inr (True, s1))
      else if tag_name \<in> single_tags s then Inr (True, s)
      else if tag_name \<in> group_tags s then Inr (True, s\<lparr>stack := stack s @ [tag_name]\<rparr>)
      else error (UnknownTag tag_name) s)"

definition parse_tag :: "checker \<Rightarrow> exn + (bool \<times> checker)" where
  "parse_tag s =
     (case tag_construct s of
        Inl e \<Rightarrow> Inl e
      | Inr (Return b s1) \<Rightarrow> Inr (b, s1)
      | Inr (Continue (is_closing, tag_name, s1)) \<Rightarrow> nesting_matcher is_closing tag_name s1)"

declare skip_whitespace.simps [simp del] parse_name_rest.simps [simp del]
  parse_quoted.simps [simp del] parse_args.simps [simp del]

section \<open>The checker as a scanner of the remaining input\<close>

text \<open>
  The definitions from here on are not in the source. They describe what each loop of the
  source does to the remaining input, as functions on strings, and each is proved equal to
  the source's loop. The properties of the checker are then proved on the strings.
\<close>

subsection \<open>The cursor as remaining input\<close>

text \<open>
  \<open>rest\<close> is the input from the current position on, \<open>step\<close> is the change that
  \<open>advance\<close> makes to the cursor, and \<open>adv n\<close> is \<open>n\<close> such steps.
\<close>

definition rest :: "checker \<Rightarrow> string" where
  "rest s = drop (pos s) (code s)"

definition step :: "checker \<Rightarrow> checker" where
  "step s =
     (if code s ! pos s = CHR 0x0A then s\<lparr>pos := pos s + 1, line := line s + 1, col := 1\<rparr>
      else s\<lparr>pos := pos s + 1, col := col s + 1\<rparr>)"

fun adv :: "nat \<Rightarrow> checker \<Rightarrow> checker" where
  "adv 0 s = s"
| "adv (Suc n) s = adv n (step s)"

lemma rest_Nil: "rest s = [] \<Longrightarrow> current_char s = None \<and> advance s = Inl IndexError"
  by (simp add: rest_def current_char_def advance_def)

lemma rest_Cons:
  "rest s = c # r \<Longrightarrow> current_char s = Some c \<and> advance s = Inr (c, step s) \<and> rest (step s) = r"
proof -
  assume a: "rest s = c # r"
  then have l: "pos s < length (code s)"
    by (cases "pos s < length (code s)") (simp_all add: rest_def)
  from a l have c: "code s ! pos s = c"
    by (metis rest_def Cons_nth_drop_Suc list.inject)
  from a l have r: "drop (Suc (pos s)) (code s) = r"
    by (metis rest_def Cons_nth_drop_Suc list.inject)
  from l c r show ?thesis
    by (simp add: current_char_def advance_def step_def rest_def Let_def)
qed

lemma step_frame [simp]:
  "code (step s) = code s" "single_tags (step s) = single_tags s"
  "group_tags (step s) = group_tags s" "stack (step s) = stack s"
  "raise_exception (step s) = raise_exception s" "stdout (step s) = stdout s"
  "pos (step s) = Suc (pos s)"
  by (simp_all add: step_def)

lemma adv_frame [simp]:
  "code (adv n s) = code s" "single_tags (adv n s) = single_tags s"
  "group_tags (adv n s) = group_tags s" "stack (adv n s) = stack s"
  "raise_exception (adv n s) = raise_exception s" "stdout (adv n s) = stdout s"
  "pos (adv n s) = pos s + n"
  by (induction n arbitrary: s; simp)+

lemma rest_adv [simp]: "rest (adv n s) = drop n (rest s)"
  by (simp add: rest_def add.commute)

lemma adv_add: "adv (m + n) s = adv n (adv m s)"
  by (induction m arbitrary: s) simp_all


subsection \<open>Scanners on the remaining input\<close>

text \<open>
  A scanner reads a string and either is done after \<open>n\<close> characters, with a value, or
  fails after \<open>n\<close> characters with a message, or indexes out of range. \<open>embed\<close>
  turns this into the result of the source's loop started in a checker state.
\<close>

datatype 'a scan = Done 'a nat | Fail message nat | Crash

fun shift :: "nat \<Rightarrow> 'a scan \<Rightarrow> 'a scan" where
  "shift k (Done x n) = Done x (k + n)"
| "shift k (Fail m n) = Fail m (k + n)"
| "shift k Crash = Crash"

fun embed :: "('a \<Rightarrow> checker \<Rightarrow> 'b) \<Rightarrow> checker \<Rightarrow> 'a scan \<Rightarrow> exn + 'b flow" where
  "embed f s (Done x n) = Inr (Continue (f x (adv n s)))"
| "embed f s (Fail m n) = return_error m (adv n s)"
| "embed f s Crash = Inl IndexError"

lemma embed_shift: "embed f s (shift k x) = embed f (adv k s) x"
  by (cases x) (simp_all add: adv_add)

lemma skip_whitespace_eq:
  "skip_whitespace s = Inr (adv (length (takeWhile is_whitespace (rest s))) s)"
proof (induction "rest s" arbitrary: s)
  case Nil
  then show ?case
    using rest_Nil [of s] by (simp add: skip_whitespace.simps)
next
  case (Cons c r)
  from Cons(2) [symmetric] have a: "rest s = c # r" .
  note f = rest_Cons [OF a]
  from f have "r = rest (step s)" by simp
  from Cons(1) [OF this] f a show ?case
    by (simp add: skip_whitespace.simps [of s])
qed

fun name_scan :: "string \<Rightarrow> string scan" where
  "name_scan [] = Fail UnterminatedTagName 0"
| "name_scan (c # r) =
     (if is_whitespace c \<or> c = CHR '']'' then Done [] 0
      else if c = backquote then Fail EscapeInTagName 0
      else if \<not> (isalnum c \<or> c \<in> {CHR ''#'', CHR ''_'', CHR ''-''}) then Fail InvalidTagNameChar 0
      else (case name_scan r of
              Done nm n \<Rightarrow> Done (c # nm) (Suc n)
            | Fail m n \<Rightarrow> Fail m (Suc n)
            | Crash \<Rightarrow> Crash))"

lemma parse_name_rest_eq:
  "parse_name_rest tn s = embed (\<lambda>nm s1. (tn @ nm, s1)) s (name_scan (rest s))"
proof (induction "rest s" arbitrary: s tn)
  case Nil
  then show ?case
    using rest_Nil [of s] by (simp add: parse_name_rest.simps)
next
  case (Cons c r)
  from Cons(2) [symmetric] have a: "rest s = c # r" .
  note f = rest_Cons [OF a]
  from f have "r = rest (step s)" by simp
  from Cons(1) [OF this, of "tn @ [c]"] f a show ?case
    by (cases "name_scan r") (simp_all add: parse_name_rest.simps [of tn s])
qed

fun quoted_scan :: "string \<Rightarrow> unit scan" where
  "quoted_scan [] = Fail UnterminatedQuotedArgument 0"
| "quoted_scan (c # r) =
     (if c = backquote then
        (case r of
           [] \<Rightarrow> Fail DanglingEscapeQuoted 1
         | d # r1 \<Rightarrow> shift 2 (quoted_scan r1))
      else if c = dquote then Done () 1
      else shift 1 (quoted_scan r))"

lemma parse_quoted_sim:
  "rest s = t \<Longrightarrow> parse_quoted s = embed (\<lambda>u s1. s1) s (quoted_scan t)"
proof (induction t arbitrary: s rule: quoted_scan.induct)
  case 1
  then show ?case
    using rest_Nil [of s] by (simp add: parse_quoted.simps)
next
  case (2 c r)
  note a = \<open>rest s = c # r\<close>
  note f = rest_Cons [OF a]
  show ?case
  proof (cases "c = backquote")
    case True
    show ?thesis
    proof (cases r)
      case Nil
      with f True a rest_Nil [of "step s"] show ?thesis
        by (simp add: parse_quoted.simps [of s])
    next
      case (Cons d r1)
      with f have b: "rest (step s) = d # r1" by simp
      note g = rest_Cons [OF b]
      from g have "rest (step (step s)) = r1" by simp
      from 2(1) [OF True Cons this] f g a True Cons show ?thesis
        by (simp add: parse_quoted.simps [of s] embed_shift numeral_2_eq_2)
    qed
  next
    case False
    show ?thesis
    proof (cases "c = dquote")
      case True
      with f a False show ?thesis
        by (simp add: parse_quoted.simps [of s])
    next
      case nq: False
      from f have "rest (step s) = r" by simp
      from 2(2) [OF False nq this] f a False nq show ?thesis
        by (simp add: parse_quoted.simps [of s] embed_shift)
    qed
  qed
qed

lemma parse_quoted_eq:
  "parse_quoted s = embed (\<lambda>u s1. s1) s (quoted_scan (rest s))"
  by (rule parse_quoted_sim) simp


fun args_scan :: "string \<Rightarrow> unit scan" where
  "args_scan [] = Done () 0"
| "args_scan (c # r) =
     (if c = CHR '']'' then Done () 0
      else if is_whitespace c then (if r = [] then Crash else shift 1 (args_scan r))
      else if c = dquote then
        shift 1 (case quoted_scan r of
                   Done u n \<Rightarrow> shift n (args_scan (drop n r))
                 | Fail m n \<Rightarrow> Fail m n
                 | Crash \<Rightarrow> Crash)
      else if c = backquote then
        (case r of
           [] \<Rightarrow> Fail DanglingEscapeUnquoted 1
         | d # r1 \<Rightarrow> shift 2 (args_scan r1))
      else if c = CHR ''['' then Fail IllegalBracketInArgument 0
      else shift 1 (args_scan r))"

lemma special_not_whitespace [simp]:
  "\<not> is_whitespace dquote" "\<not> is_whitespace backquote" "\<not> is_whitespace CHR '']''"
  "\<not> is_whitespace CHR ''[''" "\<not> is_whitespace CHR ''/''"
  "dquote \<noteq> backquote" "dquote \<noteq> CHR '']''" "dquote \<noteq> CHR ''[''"
  "backquote \<noteq> CHR '']''" "backquote \<noteq> CHR ''[''" "backquote \<noteq> dquote"
  "CHR '']'' \<noteq> dquote" "CHR ''['' \<noteq> dquote" "CHR '']'' \<noteq> backquote"
  "CHR ''['' \<noteq> backquote"
  by (simp_all add: is_whitespace_def dquote_def backquote_def)

lemma parse_args_skip:
  assumes w: "is_whitespace c" and a: "rest s = c # d # r"
  shows "parse_args s = parse_args (step s)"
proof -
  note f = rest_Cons [OF a]
  from f have b: "rest (step s) = d # r" by simp
  note g = rest_Cons [OF b]
  from w have nc: "c \<noteq> CHR '']''" by auto
  have k: "skip_whitespace s = Inr (adv (length (takeWhile is_whitespace (d # r))) (step s))"
    using a w by (simp add: skip_whitespace_eq)
  have k': "skip_whitespace (step s) = Inr (adv (length (takeWhile is_whitespace (d # r))) (step s))"
    using b by (simp add: skip_whitespace_eq)
  show ?thesis
  proof (cases "is_whitespace d")
    case True
    then have "d \<noteq> CHR '']''" by auto
    with True w nc f g k k' show ?thesis
      by (simp add: parse_args.simps [of s] parse_args.simps [of "step s"])
  next
    case False
    with w nc f g k show ?thesis
      by (simp add: parse_args.simps [of s] parse_args.simps [of "step s"])
  qed
qed

lemma parse_args_sim:
  "rest s = t \<Longrightarrow> parse_args s = embed (\<lambda>u s1. s1) s (args_scan t)"
proof (induction t arbitrary: s rule: args_scan.induct)
  case 1
  then show ?case
    using rest_Nil [of s] by (simp add: parse_args.simps)
next
  case (2 c r)
  note a = \<open>rest s = c # r\<close>
  note f = rest_Cons [OF a]
  consider (close) "c = CHR '']''" | (ws) "is_whitespace c"
    | (quote) "c = dquote" | (esc) "c = backquote" | (bracket) "c = CHR ''[''"
    | (plain) "c \<noteq> CHR '']''" "\<not> is_whitespace c" "c \<noteq> dquote" "c \<noteq> backquote"
        "c \<noteq> CHR ''[''"
    by blast
  then show ?case
  proof cases
    case close
    with f show ?thesis by (simp add: parse_args.simps [of s])
  next
    case ws
    then have nc: "c \<noteq> CHR '']''" by auto
    show ?thesis
    proof (cases r)
      case Nil
      with a have "skip_whitespace s = Inr (step s)"
        using ws by (simp add: skip_whitespace_eq)
      with Nil f ws nc rest_Nil [of "step s"] show ?thesis
        by (simp add: parse_args.simps [of s])
    next
      case (Cons d r1)
      with a have "parse_args s = parse_args (step s)"
        using parse_args_skip [OF ws] by simp
      moreover from f have "rest (step s) = r" by simp
      note 2(1) [OF nc ws _ this]
      ultimately show ?thesis using Cons ws nc
        by (simp add: embed_shift)
    qed
  next
    case quote
    from f have b: "rest (step s) = r" by simp
    have q: "parse_quoted (step s) = embed (\<lambda>u s1. s1) (step s) (quoted_scan r)"
      using b by (rule parse_quoted_sim)
    show ?thesis
    proof (cases "quoted_scan r")
      case (Done u n)
      have "rest (adv n (step s)) = drop n r" using b by simp
      from 2(2) [OF _ _ quote Done this] quote
      have "parse_args (adv n (step s)) = embed (\<lambda>u s1. s1) (adv n (step s)) (args_scan (drop n r))"
        by simp
      with Done q f quote show ?thesis
        by (simp add: parse_args.simps [of s] embed_shift)
    next
      case (Fail m n)
      with q f quote show ?thesis
        by (simp add: parse_args.simps [of s] return_error_def split: sum.splits)
    next
      case Crash
      with q f quote show ?thesis
        by (simp add: parse_args.simps [of s])
    qed
  next
    case esc
    show ?thesis
    proof (cases r)
      case Nil
      with f esc rest_Nil [of "step s"] show ?thesis
        by (simp add: parse_args.simps [of s])
    next
      case (Cons d r1)
      with f have b: "rest (step s) = d # r1" by simp
      note g = rest_Cons [OF b]
      from g have "rest (step (step s)) = r1" by simp
      from 2(3) [OF _ _ _ esc Cons this] esc
      have "parse_args (step (step s)) = embed (\<lambda>u s1. s1) (step (step s)) (args_scan r1)"
        by simp
      with f g esc Cons show ?thesis
        by (simp add: parse_args.simps [of s] embed_shift numeral_2_eq_2)
    qed
  next
    case bracket
    with f show ?thesis by (simp add: parse_args.simps [of s])
  next
    case plain
    from f have "rest (step s) = r" by simp
    from 2(4) [OF plain this] f plain show ?thesis
      by (simp add: parse_args.simps [of s] embed_shift)
  qed
qed


text \<open>The construct as a whole: the name with its arguments, behind the bracket and the slash.\<close>

definition ws_len :: "string \<Rightarrow> nat" where
  "ws_len t = length (takeWhile is_whitespace t)"

definition name_and_args :: "bool \<Rightarrow> string \<Rightarrow> (bool \<times> string) scan" where
  "name_and_args closing t =
     (case t of
        [] \<Rightarrow> Fail MissingTagName 0
      | c # r \<Rightarrow>
          if c = backquote then Fail EscapeInTagName 0
          else if \<not> (isalnum c \<or> c = CHR ''#'') then Fail InvalidTagNameStart 0
          else
            shift 1
              (case name_scan r of
                 Fail m n \<Rightarrow> Fail m n
               | Crash \<Rightarrow> Crash
               | Done nm n \<Rightarrow>
                   (let w = ws_len (drop n r);
                        r2 = drop (n + w) r
                    in shift (n + w)
                         (case args_scan r2 of
                            Fail m k \<Rightarrow> Fail m k
                          | Crash \<Rightarrow> Crash
                          | Done u k \<Rightarrow>
                              if take 1 (drop k r2) = '']'' then Done (closing, c # nm) (Suc k)
                              else Fail MissingTagTerminator k))))"

definition tag_scan :: "string \<Rightarrow> (bool \<times> string) scan" where
  "tag_scan t =
     (case t of
        [] \<Rightarrow> Crash
      | b # t1 \<Rightarrow>
          shift 1
            (if take 1 t1 = ''/'' then shift 1 (name_and_args True (drop 1 t1))
             else name_and_args False t1))"

lemma current_char_rest: "current_char s = (case rest s of [] \<Rightarrow> None | c # r \<Rightarrow> Some c)"
  using rest_Nil [of s] rest_Cons [of s] by (cases "rest s") simp_all

lemma current_char_is: "current_char s = Some c \<longleftrightarrow> take 1 (rest s) = [c]"
  by (cases "rest s") (simp_all add: current_char_rest)

lemma take1_Cons: "take 1 xs = [c] \<Longrightarrow> \<exists>r. xs = c # r"
  by (cases xs) simp_all

lemma adv_step: "step (adv n s) = adv n (step s)"
  by (induction n arbitrary: s) simp_all

lemma case_return_error [simp]:
  "(case return_error m s of
      Inl e \<Rightarrow> Inl e
    | Inr x \<Rightarrow> (case x of Return b s1 \<Rightarrow> Inr (Return b s1) | Continue y \<Rightarrow> f y))
   = return_error m s"
  by (simp add: return_error_def error_def)

lemma name_and_args_sim:
  "rest s = t \<Longrightarrow>
   (case current_char s of
      None \<Rightarrow> return_error MissingTagName s
    | Some ch \<Rightarrow>
        if ch = backquote then return_error EscapeInTagName s
        else if \<not> (isalnum ch \<or> ch = CHR ''#'') then return_error InvalidTagNameStart s
        else
          (case advance s of
             Inl e \<Rightarrow> Inl e
           | Inr (_, s3) \<Rightarrow>
               (case parse_name_rest [ch] s3 of
                  Inl e \<Rightarrow> Inl e
                | Inr (Return b s4) \<Rightarrow> Inr (Return b s4)
                | Inr (Continue (tag_name, s4)) \<Rightarrow>
                    (case skip_whitespace s4 of
                       Inl e \<Rightarrow> Inl e
                     | Inr s5 \<Rightarrow>
                         (case parse_args s5 of
                            Inl e \<Rightarrow> Inl e
                          | Inr (Return b s6) \<Rightarrow> Inr (Return b s6)
                          | Inr (Continue s6) \<Rightarrow>
                              if current_char s6 \<noteq> Some CHR '']'' then
                                return_error MissingTagTerminator s6
                              else
                                (case advance s6 of
                                   Inl e \<Rightarrow> Inl e
                                 | Inr (_, s7) \<Rightarrow>
                                     Inr (Continue (closing, tag_name, s7))))))))
   = embed (\<lambda>(cl, nm) s1. (cl, nm, s1)) s (name_and_args closing t)"
proof (cases t)
  case Nil
  assume "rest s = t"
  with Nil rest_Nil [of s] show ?thesis by (simp add: name_and_args_def)
next
  case (Cons c r)
  assume "rest s = t"
  with Cons have a: "rest s = c # r" by simp
  note f = rest_Cons [OF a]
  show ?thesis
  proof (cases "c = backquote \<or> \<not> (isalnum c \<or> c = CHR ''#'')")
    case True
    with f Cons show ?thesis by (auto simp: name_and_args_def)
  next
    case False
    have n: "parse_name_rest [c] (step s) = embed (\<lambda>nm s1. ([c] @ nm, s1)) (step s) (name_scan r)"
      using f by (simp add: parse_name_rest_eq)
    show ?thesis
    proof (cases "name_scan r")
      case (Fail m n')
      with n f False Cons show ?thesis
        by (simp add: name_and_args_def)
    next
      case Crash
      with n f False Cons show ?thesis by (simp add: name_and_args_def)
    next
      case (Done nm n')
      define s4 where "s4 = adv n' (step s)"
      define w where "w = ws_len (drop n' r)"
      define s5 where "s5 = adv w s4"
      have r4: "rest s4 = drop n' r" using f by (simp add: s4_def)
      have sk: "skip_whitespace s4 = Inr s5"
        by (simp add: skip_whitespace_eq s5_def w_def r4 ws_len_def)
      have r5: "rest s5 = drop (n' + w) r" using r4 by (simp add: s5_def add.commute)
      have s5': "s5 = adv (n' + w) (step s)" by (simp add: s5_def s4_def adv_add)
      have pa: "parse_args s5 = embed (\<lambda>u s1. s1) s5 (args_scan (drop (n' + w) r))"
        using r5 by (rule parse_args_sim)
      show ?thesis
      proof (cases "args_scan (drop (n' + w) r)")
        case (Fail m k)
        with pa sk n Done f False Cons show ?thesis
          by (simp add: name_and_args_def Let_def w_def [symmetric] s4_def s5_def adv_add)
      next
        case Crash
        with pa sk n Done f False Cons show ?thesis
          by (simp add: name_and_args_def Let_def w_def [symmetric] s4_def s5_def adv_add)
      next
        case d2: (Done u k)
        define s6 where "s6 = adv k s5"
        have r6: "rest s6 = drop k (drop (n' + w) r)" using r5 by (simp add: s6_def)
        show ?thesis
        proof (cases "take 1 (drop k (drop (n' + w) r)) = '']''")
          case True
          then obtain r7 where "rest s6 = CHR '']'' # r7"
            using r6 take1_Cons [of "rest s6" "CHR '']''"] by auto
          note g = rest_Cons [OF this]
          from g True pa sk n Done d2 f False Cons show ?thesis
            by (simp add: name_and_args_def Let_def w_def [symmetric] s4_def s5_def s6_def adv_add
                adv_step)
        next
          case nt: False
          then have "current_char s6 \<noteq> Some CHR '']''"
            using r6 by (simp add: current_char_is)
          with nt pa sk n Done d2 f False Cons show ?thesis
            by (simp add: name_and_args_def Let_def w_def [symmetric] s4_def s5_def s6_def adv_add)
        qed
      qed
    qed
  qed
qed


lemma tag_construct_eq:
  "tag_construct s = embed (\<lambda>(cl, nm) s1. (cl, nm, s1)) s (tag_scan (rest s))"
proof (cases "rest s")
  case Nil
  with rest_Nil [of s] show ?thesis by (simp add: tag_construct_def tag_scan_def)
next
  case (Cons b t1)
  note f = rest_Cons [OF Cons]
  show ?thesis
  proof (cases "take 1 t1 = ''/''")
    case True
    then obtain t2 where t1: "t1 = CHR ''/'' # t2"
      using take1_Cons [of t1 "CHR ''/''"] by auto
    with f have "rest (step s) = CHR ''/'' # t2" by simp
    note g = rest_Cons [OF this]
    from g have r2: "rest (step (step s)) = t2" by simp
    show ?thesis
      unfolding tag_construct_def
      apply (simp only: f g sum.case prod.case if_True simp_thms)
      apply (subst name_and_args_sim [OF r2])
      apply (simp add: tag_scan_def Cons t1 embed_shift)
      done
  next
    case False
    then have nc: "current_char (step s) \<noteq> Some CHR ''/''"
      using f by (simp add: current_char_is)
    from f have r1: "rest (step s) = t1" by simp
    have "tag_scan (rest s) = shift 1 (name_and_args False t1)"
      using False by (simp add: tag_scan_def Cons)
    then show ?thesis
      unfolding tag_construct_def
      apply (simp only: f nc sum.case prod.case if_False simp_thms)
      apply (subst name_and_args_sim [OF r1])
      apply (simp add: embed_shift)
      done
  qed
qed


text \<open>
  With the stack: a scan ends after \<open>n\<close> characters with a stack, or fails after
  \<open>n\<close> characters with a message and the stack of that moment, or indexes out of range.
\<close>

datatype outcome = Finished "string list" nat | Failed message "string list" nat | Crashed

fun oshift :: "nat \<Rightarrow> outcome \<Rightarrow> outcome" where
  "oshift k (Finished st n) = Finished st (k + n)"
| "oshift k (Failed m st n) = Failed m st (k + n)"
| "oshift k Crashed = Crashed"

definition matcher ::
  "string set \<Rightarrow> string set \<Rightarrow> bool \<Rightarrow> string \<Rightarrow> string list \<Rightarrow> (message \<times> string list) + string list"
where
  "matcher S G closing nm st =
     (if closing then
        if nm \<in> S then Inl (CloseOfSingleTag nm, st)
        else if st = [] then Inl (CloseWithoutOpen nm, st)
        else if last st \<noteq> nm then Inl (MismatchedClose nm (last st), butlast st)
        else Inr (butlast st)
      else if nm \<in> S then Inr st
      else if nm \<in> G then Inr (st @ [nm])
      else Inl (UnknownTag nm, st))"

definition tag_run :: "string set \<Rightarrow> string set \<Rightarrow> string list \<Rightarrow> string \<Rightarrow> outcome" where
  "tag_run S G st t =
     (case tag_scan t of
        Done x n \<Rightarrow>
          (case matcher S G (fst x) (snd x) st of
             Inl (m, st1) \<Rightarrow> Failed m st1 n
           | Inr st1 \<Rightarrow> Finished st1 n)
      | Fail m n \<Rightarrow> Failed m st n
      | Crash \<Rightarrow> Crashed)"

fun result :: "checker \<Rightarrow> outcome \<Rightarrow> exn + (bool \<times> checker)" where
  "result s (Finished st n) = Inr (True, (adv n s)\<lparr>stack := st\<rparr>)"
| "result s (Failed m st n) = error m ((adv n s)\<lparr>stack := st\<rparr>)"
| "result s Crashed = Inl IndexError"

lemma stack_same [simp]: "stack s = st \<Longrightarrow> s\<lparr>stack := st\<rparr> = s"
  by auto

lemma nesting_matcher_eq:
  "nesting_matcher cl nm s =
     (case matcher (single_tags s) (group_tags s) cl nm (stack s) of
        Inl (m, st1) \<Rightarrow> error m (s\<lparr>stack := st1\<rparr>)
      | Inr st1 \<Rightarrow> Inr (True, s\<lparr>stack := st1\<rparr>))"
  by (simp add: nesting_matcher_def matcher_def Let_def)

lemma parse_tag_eq:
  "parse_tag s = result s (tag_run (single_tags s) (group_tags s) (stack s) (rest s))"
proof (cases "tag_scan (rest s)")
  case (Done x n)
  obtain cl nm where x: "x = (cl, nm)" by (cases x)
  show ?thesis
    by (cases "matcher (single_tags s) (group_tags s) cl nm (stack s)")
       (auto simp: parse_tag_def tag_construct_eq tag_run_def Done x nesting_matcher_eq)
next
  case (Fail m n)
  then show ?thesis
    by (simp add: parse_tag_def tag_construct_eq tag_run_def return_error_def split: sum.splits)
next
  case Crash
  then show ?thesis
    by (simp add: parse_tag_def tag_construct_eq tag_run_def)
qed

lemma tag_scan_Done: "tag_scan t = Done x n \<Longrightarrow> 0 < n"
  by (cases t; cases "name_and_args True (drop 1 (tl t))"; cases "name_and_args False (tl t)")
     (auto simp: tag_scan_def split: if_splits)

lemma tag_run_Finished: "tag_run S G st t = Finished st1 n \<Longrightarrow> 0 < n"
  by (auto simp: tag_run_def split: scan.splits sum.splits dest: tag_scan_Done)

lemma parse_tag_True:
  "parse_tag s = Inr (True, s1) \<Longrightarrow> code s1 = code s \<and> pos s < pos s1"
  by (cases "tag_run (single_tags s) (group_tags s) (stack s) (rest s)")
     (auto simp: parse_tag_eq error_def dest: tag_run_Finished split: if_splits)

subsection \<open>Top-level Scan Loop\<close>

text \<open>The scan loop of \<open>check\<close> (\<open>while\<close>, lines 59 to 77).\<close>

function check_loop :: "checker \<Rightarrow> exn + checker flow" where
  "check_loop s =
     (if pos s < length (code s) then
        if current_char s = Some backquote then
          (case advance s of
             Inl e \<Rightarrow> Inl e
           | Inr (_, s1) \<Rightarrow>
               (case current_char s1 of
                  None \<Rightarrow> return_error DanglingEscape s1
                | Some _ \<Rightarrow>
                    (case advance s1 of
                       Inl e \<Rightarrow> Inl e
                     | Inr (_, s2) \<Rightarrow> check_loop s2)))
        else if current_char s = Some CHR ''['' then
          (case parse_tag s of
             Inl e \<Rightarrow> Inl e
           | Inr (b, s1) \<Rightarrow> if \<not> b then Inr (Return False s1) else check_loop s1)
        else
          (case advance s of
             Inl e \<Rightarrow> Inl e
           | Inr (_, s1) \<Rightarrow> check_loop s1)
      else Inr (Continue s))"
  by pat_completeness auto
termination
proof (relation "measure (\<lambda>s. length (code s) - pos s)", goal_cases)
  case 1
  show ?case by simp
next
  case (2 s p x s1 d q y s2)
  from 2(3,4) have a: "advance s = Inr (x, s1)" by simp
  from 2(6,7) have b: "advance s1 = Inr (y, s2)" by simp
  from advance_Inr [OF a] advance_Inr [OF b] show ?case by auto
next
  case (3 s p b s1)
  from 3(4,5,6) have "parse_tag s = Inr (True, s1)" by simp
  from parse_tag_True [OF this] 3(1) show ?case by auto
next
  case (4 s p x s1)
  from 4(4,5) have a: "advance s = Inr (x, s1)" by simp
  from advance_Inr [OF a] show ?case by auto
qed


declare check_loop.simps [simp del]

text \<open>\<open>check\<close>: the scan loop, then the test of the stack (lines 80 to 82).\<close>

definition check :: "checker \<Rightarrow> exn + (bool \<times> checker)" where
  "check s =
     (case check_loop s of
        Inl e \<Rightarrow> Inl e
      | Inr (Return b s1) \<Rightarrow> Inr (b, s1)
      | Inr (Continue s1) \<Rightarrow>
          if stack s1 \<noteq> [] then error UnclosedTags s1 else Inr (True, s1))"

definition check_syntax :: "string \<Rightarrow> string set \<Rightarrow> string set \<Rightarrow> bool \<Rightarrow> exn + bool" where
  "check_syntax dsl_code singles groups raise_exc =
     (case check (SyntaxChecker dsl_code singles groups raise_exc) of
        Inl e \<Rightarrow> Inl e
      | Inr (b, _) \<Rightarrow> Inr b)"


text \<open>The scan loop and \<open>check\<close> on the remaining input.\<close>

function run :: "string set \<Rightarrow> string set \<Rightarrow> string list \<Rightarrow> string \<Rightarrow> outcome" where
  "run S G st [] = Finished st 0"
| "run S G st (c # r) =
     (if c = backquote then
        (case r of
           [] \<Rightarrow> Failed DanglingEscape st 1
         | d # r1 \<Rightarrow> oshift 2 (run S G st r1))
      else if c = CHR ''['' then
        (case tag_run S G st (c # r) of
           Finished st1 n \<Rightarrow> oshift n (run S G st1 (drop n (c # r)))
         | Failed m st1 n \<Rightarrow> Failed m st1 n
         | Crashed \<Rightarrow> Crashed)
      else oshift 1 (run S G st r))"
  by pat_completeness auto
termination
  by (relation "measure (\<lambda>(S, G, st, t). length t)")
     (auto dest: tag_run_Finished)

fun loop_result :: "checker \<Rightarrow> outcome \<Rightarrow> exn + checker flow" where
  "loop_result s (Finished st n) = Inr (Continue ((adv n s)\<lparr>stack := st\<rparr>))"
| "loop_result s (Failed m st n) = return_error m ((adv n s)\<lparr>stack := st\<rparr>)"
| "loop_result s Crashed = Inl IndexError"

lemma step_stack_upd: "step (s\<lparr>stack := st\<rparr>) = (step s)\<lparr>stack := st\<rparr>"
  by (simp add: step_def)

lemma adv_stack_upd: "adv n (s\<lparr>stack := st\<rparr>) = (adv n s)\<lparr>stack := st\<rparr>"
  by (induction n arbitrary: s) (simp_all add: step_stack_upd)

lemma rest_stack_upd [simp]: "rest (s\<lparr>stack := st\<rparr>) = rest s"
  by (simp add: rest_def)

lemma loop_result_shift:
  "loop_result s (oshift k x) = loop_result (adv k s) x"
  by (cases x) (simp_all add: adv_add)

lemma loop_result_stack:
  "loop_result (s\<lparr>stack := st\<rparr>) x = loop_result s x"
  by (cases x) (simp_all add: adv_stack_upd)

lemma rest_pos: "pos s < length (code s) \<longleftrightarrow> rest s \<noteq> []"
  by (auto simp: rest_def)

lemma check_loop_sim:
  "rest s = t \<Longrightarrow> stack s = st \<Longrightarrow> single_tags s = S \<Longrightarrow> group_tags s = G \<Longrightarrow>
   check_loop s = loop_result s (run S G st t)"
proof (induction S G st t arbitrary: s rule: run.induct)
  case (1 S G st)
  then show ?case by (simp add: check_loop.simps [of s] rest_pos)
next
  case (2 S G st c r)
  note a = \<open>rest s = c # r\<close>
  note f = rest_Cons [OF a]
  from a have p: "pos s < length (code s)" by (simp add: rest_pos)
  consider (esc) "c = backquote" | (tag) "c = CHR ''[''"
    | (plain) "c \<noteq> backquote" "c \<noteq> CHR ''[''"
    by blast
  then show ?case
  proof cases
    case esc
    show ?thesis
    proof (cases r)
      case Nil
      with f esc p rest_Nil [of "step s"] 2(5) show ?thesis
        by (simp add: check_loop.simps [of s])
    next
      case (Cons d r1)
      with f have "rest (step s) = d # r1" by simp
      note g = rest_Cons [OF this]
      from g have "rest (step (step s)) = r1" by simp
      from 2(1) [OF esc Cons this] 2(5,6,7)
      have "check_loop (step (step s)) = loop_result (step (step s)) (run S G st r1)"
        by simp
      with f g esc Cons p show ?thesis
        by (simp add: check_loop.simps [of s] loop_result_shift numeral_2_eq_2)
    qed
  next
    case tag
    then have ne: "c \<noteq> backquote" by simp
    have pt: "parse_tag s = result s (tag_run S G st (c # r))"
      using a 2(5,6,7) by (simp add: parse_tag_eq)
    show ?thesis
    proof (cases "tag_run S G st (c # r)")
      case (Finished st1 n)
      define s1 where "s1 = (adv n s)\<lparr>stack := st1\<rparr>"
      have "rest s1 = drop n (c # r)" using a by (simp add: s1_def)
      from 2(2) [OF ne tag Finished this] 2(6,7)
      have "check_loop s1 = loop_result s1 (run S G st1 (drop n (c # r)))"
        by (simp add: s1_def)
      with Finished pt f tag ne p show ?thesis
        by (simp add: check_loop.simps [of s] s1_def loop_result_shift loop_result_stack)
    next
      case (Failed m st1 n)
      with pt f tag ne p show ?thesis
        by (simp add: check_loop.simps [of s] return_error_def error_def)
    next
      case Crashed
      with pt f tag ne p show ?thesis
        by (simp add: check_loop.simps [of s])
    qed
  next
    case plain
    from f have "rest (step s) = r" by simp
    from 2(3) [OF plain this] 2(5,6,7)
    have "check_loop (step s) = loop_result (step s) (run S G st r)" by simp
    with f plain p show ?thesis
      by (simp add: check_loop.simps [of s] loop_result_shift)
  qed
qed

definition verdict :: "string set \<Rightarrow> string set \<Rightarrow> string list \<Rightarrow> string \<Rightarrow> outcome" where
  "verdict S G st t =
     (case run S G st t of
        Finished st1 n \<Rightarrow> if st1 \<noteq> [] then Failed UnclosedTags st1 n else Finished st1 n
      | Failed m st1 n \<Rightarrow> Failed m st1 n
      | Crashed \<Rightarrow> Crashed)"

lemma check_eq:
  "check s = result s (verdict (single_tags s) (group_tags s) (stack s) (rest s))"
  by (cases "run (single_tags s) (group_tags s) (stack s) (rest s)")
     (simp_all add: check_def verdict_def check_loop_sim [OF refl refl refl refl]
        return_error_def error_def)


subsection \<open>The entry point, the two modes and the end of the scan\<close>

lemmas scan_defs = verdict_def tag_run_def tag_scan_def name_and_args_def matcher_def ws_len_def
  is_whitespace_def isalnum_def backquote_def dquote_def

lemma check_syntax_eq:
  "check_syntax t S G r =
     (case verdict S G [] t of
        Finished st n \<Rightarrow> Inr True
      | Failed m st n \<Rightarrow>
          if r then
            Inl (DSLSyntaxError (line (adv n (SyntaxChecker t S G r)))
                   (col (adv n (SyntaxChecker t S G r))) m st)
          else Inr False
      | Crashed \<Rightarrow> Inl IndexError)"
  by (cases "verdict S G [] t")
     (simp_all add: check_syntax_def check_eq SyntaxChecker_def rest_def error_def)

lemma step_raise_upd:
  "step (s\<lparr>raise_exception := b\<rparr>) = (step s)\<lparr>raise_exception := b\<rparr>"
  by (simp add: step_def)

lemma adv_raise_upd:
  "adv n (s\<lparr>raise_exception := b\<rparr>) = (adv n s)\<lparr>raise_exception := b\<rparr>"
  by (induction n arbitrary: s) (simp_all add: step_raise_upd)

lemma SyntaxChecker_raise:
  "SyntaxChecker c S G b = (SyntaxChecker c S G False)\<lparr>raise_exception := b\<rparr>"
  by (simp add: SyntaxChecker_def)

lemma raise_same: "raise_exception s = b \<Longrightarrow> s\<lparr>raise_exception := b\<rparr> = s"
  by auto

lemma SyntaxChecker_flag: "raise_exception (SyntaxChecker c S G b) = b"
  by (simp add: SyntaxChecker_def)

lemma check_initial:
  "check (SyntaxChecker c S G b) =
     (case verdict S G [] c of
        Finished st n \<Rightarrow>
          Inr (True, (adv n (SyntaxChecker c S G False))\<lparr>stack := st, raise_exception := b\<rparr>)
      | Failed m st n \<Rightarrow>
          (let s1 = (adv n (SyntaxChecker c S G False))\<lparr>stack := st\<rparr>
           in if b then Inl (DSLSyntaxError (line s1) (col s1) m st)
              else Inr (False, s1\<lparr>stdout := [ErrMsg (line s1) (col s1) m, StackDump st]\<rparr>))
      | Crashed \<Rightarrow> Inl IndexError)"
proof -
  have v: "verdict (single_tags (SyntaxChecker c S G b)) (group_tags (SyntaxChecker c S G b))
             (stack (SyntaxChecker c S G b)) (rest (SyntaxChecker c S G b)) = verdict S G [] c"
    by (simp add: SyntaxChecker_def rest_def)
  have o: "stdout (SyntaxChecker c S G False) = []" by (simp add: SyntaxChecker_def)
  show ?thesis
    unfolding check_eq v
    by (cases "verdict S G [] c"; cases b)
       (simp_all add: SyntaxChecker_raise [of c S G True] adv_raise_upd error_def Let_def o
          raise_same SyntaxChecker_flag)
qed

lemma check_loop_Return: "check_loop s = Inr (Return b s1) \<Longrightarrow> \<not> b"
  by (cases "run (single_tags s) (group_tags s) (stack s) (rest s)")
     (auto simp: check_loop_sim [OF refl refl refl refl] return_error_def error_def
        split: if_splits)

lemma check_loop_Continue:
  "check_loop s = Inr (Continue s1) \<Longrightarrow> \<not> pos s1 < length (code s1)"
proof (induction s rule: check_loop.induct)
  case (1 s)
  show ?case
  proof (cases "pos s < length (code s)")
    case False
    with "1.prems" show ?thesis by (simp add: check_loop.simps [of s])
  next
    case True
    consider (esc) "current_char s = Some backquote"
      | (tag) "current_char s \<noteq> Some backquote" "current_char s = Some CHR ''[''"
      | (plain) "current_char s \<noteq> Some backquote" "current_char s \<noteq> Some CHR ''[''"
      by blast
    then show ?thesis
    proof cases
      case esc
      with "1.prems" True obtain x s2 d y s3 where a: "advance s = Inr (x, s2)"
        and c: "current_char s2 = Some d" and b: "advance s2 = Inr (y, s3)"
        and r: "check_loop s3 = Inr (Continue s1)"
        by (auto simp: check_loop.simps [of s] return_error_def error_def
            split: sum.splits option.splits if_splits)
      from "1.IH"(1) [OF True esc a refl c b refl r] show ?thesis .
    next
      case tag
      with "1.prems" True obtain s2 where a: "parse_tag s = Inr (True, s2)"
        and r: "check_loop s2 = Inr (Continue s1)"
        by (auto simp: check_loop.simps [of s] split: sum.splits if_splits)
      from "1.IH"(2) [OF True tag a refl _ r] show ?thesis by simp
    next
      case plain
      with "1.prems" True obtain x s2 where a: "advance s = Inr (x, s2)"
        and r: "check_loop s2 = Inr (Continue s1)"
        by (auto simp: check_loop.simps [of s] split: sum.splits)
      from "1.IH"(3) [OF True plain a refl r] show ?thesis .
    qed
  qed
qed

section \<open>Tag constructs as a grammar\<close>

text \<open>
  \<open>construct closing nm t\<close>: the text \<open>t\<close> is a tag construct with the name
  \<open>nm\<close>, closing or not, as the parser accepts it.
\<close>

subsection \<open>The grammar of tag constructs\<close>

definition name_start :: "char \<Rightarrow> bool" where
  "name_start c = (isalnum c \<or> c = CHR ''#'')"

definition name_char :: "char \<Rightarrow> bool" where
  "name_char c = (isalnum c \<or> c = CHR ''#'' \<or> c = CHR ''_'' \<or> c = CHR ''-'')"

definition valid_name :: "string \<Rightarrow> bool" where
  "valid_name nm = (nm \<noteq> [] \<and> name_start (hd nm) \<and> list_all name_char (tl nm))"

definition plain :: "char \<Rightarrow> bool" where
  "plain c = (\<not> is_whitespace c \<and> c \<noteq> CHR '']'' \<and> c \<noteq> CHR ''['' \<and> c \<noteq> dquote \<and> c \<noteq> backquote)"

inductive qbody :: "string \<Rightarrow> bool" where
  qbody_Nil: "qbody []"
| qbody_char: "c \<noteq> dquote \<Longrightarrow> c \<noteq> backquote \<Longrightarrow> qbody r \<Longrightarrow> qbody (c # r)"
| qbody_escape: "qbody r \<Longrightarrow> qbody (backquote # c # r)"

inductive items :: "string \<Rightarrow> bool" where
  items_Nil: "items []"
| items_space: "is_whitespace c \<Longrightarrow> items r \<Longrightarrow> items (c # r)"
| items_plain: "plain c \<Longrightarrow> items r \<Longrightarrow> items (c # r)"
| items_escape: "items r \<Longrightarrow> items (backquote # c # r)"
| items_quoted: "qbody q \<Longrightarrow> items r \<Longrightarrow> items (dquote # q @ dquote # r)"

definition tail_ok :: "string \<Rightarrow> bool" where
  "tail_ok ta = (ta = [] \<or> (is_whitespace (hd ta) \<and> items ta))"

definition construct :: "bool \<Rightarrow> string \<Rightarrow> string \<Rightarrow> bool" where
  "construct closing nm t =
     (valid_name nm \<and>
      (\<exists>ta. tail_ok ta \<and> t = ''['' @ (if closing then ''/'' else []) @ nm @ ta @ '']''))"

lemma isalnum_not_special:
  "isalnum c \<Longrightarrow>
   \<not> is_whitespace c \<and> c \<noteq> CHR '']'' \<and> c \<noteq> CHR ''['' \<and> c \<noteq> CHR ''/''
   \<and> c \<noteq> dquote \<and> c \<noteq> backquote"
  by (auto simp: isalnum_def is_whitespace_def dquote_def backquote_def)

lemma name_char_not_special:
  "name_char c \<Longrightarrow>
   \<not> is_whitespace c \<and> c \<noteq> CHR '']'' \<and> c \<noteq> CHR ''['' \<and> c \<noteq> CHR ''/''
   \<and> c \<noteq> dquote \<and> c \<noteq> backquote"
  unfolding name_char_def
  using isalnum_not_special [of c]
  by (auto simp: is_whitespace_def dquote_def backquote_def)

lemma name_start_char: "name_start c \<Longrightarrow> name_char c"
  by (auto simp: name_start_def name_char_def)

text \<open>Names\<close>

lemma name_scan_name:
  "list_all name_char nm \<Longrightarrow> is_whitespace c \<or> c = CHR '']'' \<Longrightarrow>
   name_scan (nm @ c # r) = Done nm (length nm)"
proof (induction nm)
  case Nil
  then show ?case by simp
next
  case (Cons a nm)
  from Cons.prems have "name_char a" by simp
  with name_char_not_special [of a] Cons show ?case
    by (simp add: name_char_def)
qed

lemma name_scan_Done:
  "name_scan t = Done nm n \<Longrightarrow>
   n = length nm \<and> list_all name_char nm \<and>
   (\<exists>c r. t = nm @ c # r \<and> (is_whitespace c \<or> c = CHR '']''))"
proof (induction t arbitrary: nm n)
  case Nil
  then show ?case by simp
next
  case (Cons a t)
  show ?case
  proof (cases "is_whitespace a \<or> a = CHR '']''")
    case True
    with Cons.prems show ?thesis by auto
  next
    case False
    with Cons.prems obtain nm1 n1 where s: "name_scan t = Done nm1 n1"
      and e: "nm = a # nm1" "n = Suc n1" and a: "name_char a"
      by (auto simp: name_char_def split: if_splits scan.splits)
    from Cons.IH [OF s] e a show ?thesis by auto
  qed
qed

text \<open>Quoted arguments\<close>

lemma quoted_scan_body:
  "qbody q \<Longrightarrow> quoted_scan (q @ dquote # r) = Done () (Suc (length q))"
  by (induction q rule: qbody.induct) simp_all

lemma quoted_scan_Done:
  "quoted_scan t = Done u n \<Longrightarrow> \<exists>q r. qbody q \<and> t = q @ dquote # r \<and> n = Suc (length q)"
proof (induction t arbitrary: n rule: quoted_scan.induct)
  case 1
  then show ?case by simp
next
  case (2 c r)
  show ?case
  proof (cases "c = backquote")
    case True
    with "2.prems" obtain d r1 n1 where r: "r = d # r1" and s: "quoted_scan r1 = Done u n1"
      and n: "n = 2 + n1"
      by (cases r; cases "quoted_scan (tl r)") auto
    from "2.IH"(1) [OF True r s] obtain q r2 where "qbody q" "r1 = q @ dquote # r2" "n1 = Suc (length q)"
      by blast
    with True r n have "qbody (c # d # q) \<and> c # r = (c # d # q) @ dquote # r2 \<and> n = Suc (length (c # d # q))"
      by (simp add: qbody_escape)
    then show ?thesis by blast
  next
    case False
    show ?thesis
    proof (cases "c = dquote")
      case True
      with "2.prems" False have "n = 1" by simp
      with True have "qbody [] \<and> c # r = [] @ dquote # r \<and> n = Suc (length ([] :: string))"
        by (simp add: qbody_Nil)
      then show ?thesis by blast
    next
      case nq: False
      with "2.prems" False obtain n1 where s: "quoted_scan r = Done u n1" and n: "n = 1 + n1"
        by (cases "quoted_scan r") auto
      from "2.IH"(2) [OF False nq s] obtain q r2 where "qbody q" "r = q @ dquote # r2" "n1 = Suc (length q)"
        by blast
      with False nq n have "qbody (c # q) \<and> c # r = (c # q) @ dquote # r2 \<and> n = Suc (length (c # q))"
        by (simp add: qbody_char)
      then show ?thesis by blast
    qed
  qed
qed


text \<open>Arguments\<close>

lemma args_scan_items:
  "items v \<Longrightarrow> args_scan (v @ CHR '']'' # r) = Done () (length v)"
proof (induction v rule: items.induct)
  case items_Nil
  show ?case by simp
next
  case (items_space c v)
  then have "c \<noteq> CHR '']''" by auto
  with items_space show ?case by simp
next
  case (items_plain c v)
  then show ?case by (simp add: plain_def)
next
  case (items_escape v c)
  then show ?case by simp
next
  case (items_quoted q v)
  then show ?case by (simp add: quoted_scan_body)
qed

lemma args_scan_Done:
  "args_scan t = Done u n \<Longrightarrow>
   \<exists>v r. items v \<and> t = v @ r \<and> n = length v \<and> (r = [] \<or> hd r = CHR '']'')"
proof (induction t arbitrary: n rule: args_scan.induct)
  case 1
  then have "items [] \<and> [] = [] @ ([] :: string) \<and> n = length ([] :: string)"
    by (simp add: items_Nil)
  then show ?case by blast
next
  case (2 c t)
  consider (close) "c = CHR '']''" | (ws) "is_whitespace c"
    | (quote) "c = dquote" | (esc) "c = backquote" | (bracket) "c = CHR ''[''"
    | (plain) "plain c"
    unfolding plain_def by blast
  then show ?case
  proof cases
    case close
    with "2.prems" have "items [] \<and> c # t = [] @ (c # t) \<and> n = length ([] :: string) \<and> hd (c # t) = CHR '']''"
      by (simp add: items_Nil)
    then show ?thesis by blast
  next
    case ws
    then have nc: "c \<noteq> CHR '']''" by auto
    with "2.prems" ws obtain n1 where s: "args_scan t = Done u n1" and n: "n = Suc n1"
      by (cases "args_scan t") (auto split: if_splits)
    from "2.IH"(1) [OF nc ws _ s] "2.prems" nc ws
    obtain v r where "items v" "t = v @ r" "n1 = length v" "r = [] \<or> hd r = CHR '']''"
      by (auto split: if_splits)
    with ws n have "items (c # v) \<and> c # t = (c # v) @ r \<and> n = length (c # v) \<and> (r = [] \<or> hd r = CHR '']'')"
      by (simp add: items_space)
    then show ?thesis by blast
  next
    case quote
    with "2.prems" obtain n1 n2 where q: "quoted_scan t = Done () n1"
      and s: "args_scan (drop n1 t) = Done u n2" and n: "n = Suc (n1 + n2)"
      by (cases "quoted_scan t"; cases "args_scan (drop (case quoted_scan t of Done x k \<Rightarrow> k | _ \<Rightarrow> 0) t)")
         auto
    from quoted_scan_Done [OF q] obtain q1 r1 where b: "qbody q1" "t = q1 @ dquote # r1"
      "n1 = Suc (length q1)" by blast
    from "2.IH"(2) [OF _ _ quote q s] quote
    obtain v r where "items v" "drop n1 t = v @ r" "n2 = length v" "r = [] \<or> hd r = CHR '']''"
      by auto
    with b quote n have "items (c # q1 @ dquote # v) \<and> c # t = (c # q1 @ dquote # v) @ r
        \<and> n = length (c # q1 @ dquote # v) \<and> (r = [] \<or> hd r = CHR '']'')"
      by (simp add: items_quoted)
    then show ?thesis by blast
  next
    case esc
    with "2.prems" obtain d t1 n1 where t: "t = d # t1" and s: "args_scan t1 = Done u n1"
      and n: "n = 2 + n1"
      by (cases t; cases "args_scan (tl t)") auto
    from "2.IH"(3) [OF _ _ _ esc t s] esc
    obtain v r where "items v" "t1 = v @ r" "n1 = length v" "r = [] \<or> hd r = CHR '']''"
      by auto
    with esc t n have "items (c # d # v) \<and> c # t = (c # d # v) @ r
        \<and> n = length (c # d # v) \<and> (r = [] \<or> hd r = CHR '']'')"
      by (simp add: items_escape)
    then show ?thesis by blast
  next
    case bracket
    with "2.prems" show ?thesis by simp
  next
    case plain
    then have p: "c \<noteq> CHR '']''" "\<not> is_whitespace c" "c \<noteq> dquote" "c \<noteq> backquote" "c \<noteq> CHR ''[''"
      by (simp_all add: plain_def)
    with "2.prems" obtain n1 where s: "args_scan t = Done u n1" and n: "n = Suc n1"
      by (cases "args_scan t") auto
    from "2.IH"(4) [OF p s]
    obtain v r where "items v" "t = v @ r" "n1 = length v" "r = [] \<or> hd r = CHR '']''"
      by auto
    with plain n have "items (c # v) \<and> c # t = (c # v) @ r \<and> n = length (c # v) \<and> (r = [] \<or> hd r = CHR '']'')"
      by (simp add: items_plain)
    then show ?thesis by blast
  qed
qed


text \<open>Whole constructs\<close>

inductive_cases items_ConsE: "items (c # r)"

lemma items_after_space: "items (c # r) \<Longrightarrow> is_whitespace c \<Longrightarrow> items r"
  by (erule items_ConsE) (auto simp: plain_def)

lemma items_dropWhile: "items ta \<Longrightarrow> items (dropWhile is_whitespace ta)"
  by (induction ta) (auto dest: items_after_space)

lemma items_spaces: "list_all is_whitespace w \<Longrightarrow> items v \<Longrightarrow> items (w @ v)"
  by (induction w) (auto intro: items_space)

lemma ws_len_append: "ws_len (ta @ CHR '']'' # r) = ws_len ta"
  by (induction ta) (simp_all add: ws_len_def)

lemma ws_len_le: "ws_len ta \<le> length ta"
  by (simp add: ws_len_def length_takeWhile_le)

lemma drop_ws_len: "drop (ws_len ta) ta = dropWhile is_whitespace ta"
  by (simp add: ws_len_def dropWhile_eq_drop)

lemma name_and_args_construct:
  assumes v: "valid_name nm" and ta: "tail_ok ta"
  shows "name_and_args cl (nm @ ta @ CHR '']'' # r) = Done (cl, nm) (Suc (length nm + length ta))"
proof -
  from v obtain c nm1 where nm: "nm = c # nm1" and c: "name_start c" and a: "list_all name_char nm1"
    by (cases nm) (auto simp: valid_name_def)
  from c have "name_char c" by (rule name_start_char)
  with c name_char_not_special [of c] have c': "c \<noteq> backquote" "isalnum c \<or> c = CHR ''#''"
    by (simp_all add: name_start_def)
  have "\<exists>d r1. ta @ CHR '']'' # r = d # r1 \<and> (is_whitespace d \<or> d = CHR '']'')"
    using ta by (cases ta) (auto simp: tail_ok_def)
  then obtain d r1 where d: "ta @ CHR '']'' # r = d # r1" "is_whitespace d \<or> d = CHR '']''"
    by blast
  have n: "name_scan (nm1 @ ta @ CHR '']'' # r) = Done nm1 (length nm1)"
    using name_scan_name [OF a d(2), of r1] d(1) by simp
  have i: "items (dropWhile is_whitespace ta)"
    using ta by (auto simp: tail_ok_def items_Nil dest: items_dropWhile)
  have k: "args_scan (drop (ws_len ta) ta @ CHR '']'' # r) = Done () (length ta - ws_len ta)"
    using args_scan_items [OF i, of r] by (simp add: drop_ws_len [symmetric])
  show ?thesis
    using c' n k ws_len_le [of ta]
    by (simp add: name_and_args_def nm Let_def ws_len_append)
qed

lemma name_and_args_Done:
  assumes "name_and_args cl t = Done x n"
  shows "\<exists>nm ta r. x = (cl, nm) \<and> valid_name nm \<and> tail_ok ta \<and> t = nm @ ta @ CHR '']'' # r
           \<and> n = Suc (length nm + length ta)"
proof -
  from assms obtain c r0 where t: "t = c # r0" and c: "c \<noteq> backquote" "isalnum c \<or> c = CHR ''#''"
    by (cases t) (auto simp: name_and_args_def split: if_splits)
  from assms t c obtain nm1 n1 where ns: "name_scan r0 = Done nm1 n1"
    by (cases "name_scan r0") (auto simp: name_and_args_def)
  from name_scan_Done [OF ns] obtain d r1 where n1: "n1 = length nm1" and a: "list_all name_char nm1"
    and r0: "r0 = nm1 @ d # r1" and d: "is_whitespace d \<or> d = CHR '']''"
    by blast
  define w where "w = ws_len (d # r1)"
  have dr: "drop (n1 + w) r0 = drop w (d # r1)" by (simp add: r0 n1)
  have dn: "drop n1 r0 = d # r1" by (simp add: r0 n1)
  from assms t c ns dr dn obtain k where as: "args_scan (drop w (d # r1)) = Done () k"
    and tk: "take 1 (drop k (drop w (d # r1))) = '']''"
    and x: "x = (cl, c # nm1)" and n: "n = Suc (n1 + w + Suc k)"
    by (cases "args_scan (drop w (d # r1))")
       (auto simp: name_and_args_def Let_def w_def split: if_splits)
  from args_scan_Done [OF as] obtain v r2 where v: "items v" "drop w (d # r1) = v @ r2"
    "k = length v" by blast
  with tk obtain r3 where r2: "r2 = CHR '']'' # r3"
    using take1_Cons [of r2 "CHR '']''"] by auto
  define ta where "ta = take w (d # r1) @ v"
  have ws: "list_all is_whitespace (take w (d # r1))"
    unfolding w_def ws_len_def
    by (simp add: list_all_iff takeWhile_eq_take [symmetric] del: takeWhile.simps)
       (metis set_takeWhileD)
  have wl: "w \<le> length (d # r1)" unfolding w_def by (rule ws_len_le)
  have split: "d # r1 = ta @ CHR '']'' # r3"
    using v(2) r2 append_take_drop_id [of w "d # r1"] by (simp add: ta_def)
  have it: "items ta" unfolding ta_def using ws v(1) by (rule items_spaces)
  have hd: "ta \<noteq> [] \<Longrightarrow> is_whitespace (hd ta)"
  proof -
    assume ne: "ta \<noteq> []"
    show "is_whitespace (hd ta)"
    proof (cases "is_whitespace d")
      case True
      with split ne show ?thesis by (cases ta) auto
    next
      case False
      with d have dc: "d = CHR '']''" by simp
      with False have "w = 0" by (simp add: w_def ws_len_def)
      with as dc have "k = 0" by simp
      with v \<open>w = 0\<close> have "ta = []" by (simp add: ta_def)
      with ne show ?thesis by simp
    qed
  qed
  have "valid_name (c # nm1)" using c a by (simp add: valid_name_def name_start_def)
  moreover have "tail_ok ta" using it hd by (auto simp: tail_ok_def)
  moreover have "t = (c # nm1) @ ta @ CHR '']'' # r3" using t r0 split by simp
  moreover have "n = Suc (length (c # nm1) + length ta)"
    using n n1 v(3) wl by (simp add: ta_def)
  ultimately show ?thesis using x by blast
qed


lemma construct_Cons: "construct cl nm t \<Longrightarrow> \<exists>t1. t = CHR ''['' # t1"
  by (auto simp: construct_def)

lemma tag_scan_construct:
  assumes "construct cl nm t"
  shows "tag_scan (t @ r) = Done (cl, nm) (length t)"
proof -
  from assms obtain ta where v: "valid_name nm" and ta: "tail_ok ta"
    and t: "t = ''['' @ (if cl then ''/'' else []) @ nm @ ta @ '']''"
    by (auto simp: construct_def)
  note n = name_and_args_construct [OF v ta, of _ r]
  show ?thesis
  proof (cases cl)
    case True
    with t n [of True] show ?thesis by (simp add: tag_scan_def)
  next
    case False
    from v obtain c nm1 where nm: "nm = c # nm1" and c: "name_start c"
      by (cases nm) (auto simp: valid_name_def)
    from c have "name_char c" by (rule name_start_char)
    with name_char_not_special [of c] have "c \<noteq> CHR ''/''" by simp
    with False t nm n [of False] show ?thesis by (simp add: tag_scan_def)
  qed
qed

lemma tag_scan_Done_construct:
  assumes "tag_scan (CHR ''['' # t1) = Done (cl, nm) n"
  shows "\<exists>t r. CHR ''['' # t1 = t @ r \<and> n = length t \<and> construct cl nm t"
proof (cases "take 1 t1 = ''/''")
  case True
  then obtain t2 where t1: "t1 = CHR ''/'' # t2"
    using take1_Cons [of t1 "CHR ''/''"] by auto
  with assms obtain n1 where s: "name_and_args True t2 = Done (cl, nm) n1" and n: "n = Suc (Suc n1)"
    by (cases "name_and_args True t2") (auto simp: tag_scan_def)
  from name_and_args_Done [OF s] obtain ta r where c: "cl = True" and v: "valid_name nm" "tail_ok ta"
    and t2: "t2 = nm @ ta @ CHR '']'' # r" and n1: "n1 = Suc (length nm + length ta)"
    by auto
  have "construct cl nm (''[/'' @ nm @ ta @ '']'')"
    using v c by (auto simp: construct_def)
  moreover have "CHR ''['' # t1 = (''[/'' @ nm @ ta @ '']'') @ r" using t1 t2 by simp
  moreover have "n = length (''[/'' @ nm @ ta @ '']'')" using n n1 by simp
  ultimately show ?thesis by blast
next
  case False
  with assms obtain n1 where s: "name_and_args False t1 = Done (cl, nm) n1" and n: "n = Suc n1"
    by (cases "name_and_args False t1") (auto simp: tag_scan_def)
  from name_and_args_Done [OF s] obtain ta r where c: "cl = False" and v: "valid_name nm" "tail_ok ta"
    and t1: "t1 = nm @ ta @ CHR '']'' # r" and n1: "n1 = Suc (length nm + length ta)"
    by auto
  have "construct cl nm (''['' @ nm @ ta @ '']'')"
    using v c by (auto simp: construct_def)
  moreover have "CHR ''['' # t1 = (''['' @ nm @ ta @ '']'') @ r" using t1 by simp
  moreover have "n = length (''['' @ nm @ ta @ '']'')" using n n1 by simp
  ultimately show ?thesis by blast
qed

lemma tag_construct_iff:
  "(current_char s = Some CHR ''['' \<and>
    (\<exists>s1. tag_construct s = Inr (Continue (cl, nm, s1))
       \<and> t = take (pos s1 - pos s) (drop (pos s) (code s))))
   \<longleftrightarrow> (construct cl nm t \<and> (\<exists>r. drop (pos s) (code s) = t @ r))"
proof
  assume l: "current_char s = Some CHR ''['' \<and>
    (\<exists>s1. tag_construct s = Inr (Continue (cl, nm, s1))
       \<and> t = take (pos s1 - pos s) (drop (pos s) (code s)))"
  then obtain s1 where c: "tag_construct s = Inr (Continue (cl, nm, s1))"
    and t: "t = take (pos s1 - pos s) (rest s)"
    by (auto simp: rest_def)
  from l obtain t1 where r: "rest s = CHR ''['' # t1"
    using take1_Cons [of "rest s" "CHR ''[''"] by (auto simp: current_char_is)
  from c obtain n where d: "tag_scan (rest s) = Done (cl, nm) n" and s1: "s1 = adv n s"
    by (cases "tag_scan (rest s)")
       (auto simp: tag_construct_eq return_error_def error_def split: if_splits)
  from tag_scan_Done_construct [of t1 cl nm n] d r
  obtain t' r' where "rest s = t' @ r'" "n = length t'" "construct cl nm t'"
    by auto
  with t s1 show "construct cl nm t \<and> (\<exists>r. drop (pos s) (code s) = t @ r)"
    by (auto simp: rest_def)
next
  assume g: "construct cl nm t \<and> (\<exists>r. drop (pos s) (code s) = t @ r)"
  then obtain r where r: "rest s = t @ r" by (auto simp: rest_def)
  from g construct_Cons [of cl nm t] r have "current_char s = Some CHR ''[''"
    by (auto simp: current_char_is)
  moreover from g have "tag_scan (t @ r) = Done (cl, nm) (length t)"
    by (simp add: tag_scan_construct)
  with r have "tag_construct s = Inr (Continue (cl, nm, adv (length t) s))"
    by (simp add: tag_construct_eq)
  moreover have "t = take (pos (adv (length t) s) - pos s) (drop (pos s) (code s))"
    using r by (simp add: rest_def)
  ultimately show "current_char s = Some CHR ''['' \<and>
    (\<exists>s1. tag_construct s = Inr (Continue (cl, nm, s1))
       \<and> t = take (pos s1 - pos s) (drop (pos s) (code s)))"
    by blast
qed

subsection \<open>The surface grammar as the specification words it\<close>

definition spec_alnum :: "char \<Rightarrow> bool" where
  "spec_alnum c =
     (let n = (of_char c :: nat)
      in (48 \<le> n \<and> n \<le> 57) \<or> (65 \<le> n \<and> n \<le> 90) \<or> (97 \<le> n \<and> n \<le> 122))"

definition spec_name :: "string \<Rightarrow> bool" where
  "spec_name nm =
     (nm \<noteq> [] \<and> (spec_alnum (hd nm) \<or> hd nm = CHR ''#'')
      \<and> list_all (\<lambda>c. spec_alnum c \<or> c = CHR ''#'' \<or> c = CHR ''_'' \<or> c = CHR ''-'') (tl nm))"

inductive unquoted_run :: "string \<Rightarrow> bool" where
  unquoted_char: "plain c \<Longrightarrow> unquoted_run [c]"
| unquoted_escape: "unquoted_run [backquote, c]"
| unquoted_more_char: "plain c \<Longrightarrow> unquoted_run r \<Longrightarrow> unquoted_run (c # r)"
| unquoted_more_escape: "unquoted_run r \<Longrightarrow> unquoted_run (backquote # c # r)"

definition spec_argument :: "string \<Rightarrow> bool" where
  "spec_argument a = ((\<exists>q. qbody q \<and> a = dquote # q @ [dquote]) \<or> unquoted_run a)"

inductive spec_arguments :: "string \<Rightarrow> bool" where
  spec_arguments_Nil: "spec_arguments []"
| spec_arguments_more:
    "w \<noteq> [] \<Longrightarrow> list_all is_whitespace w \<Longrightarrow> spec_argument a \<Longrightarrow> spec_arguments r \<Longrightarrow>
     spec_arguments (w @ a @ r)"

definition spec_construct :: "bool \<Rightarrow> string \<Rightarrow> string \<Rightarrow> bool" where
  "spec_construct closing nm t =
     (spec_name nm \<and>
      (if closing then t = ''[/'' @ nm @ '']''
       else (\<exists>as. spec_arguments as \<and> t = ''['' @ nm @ as @ '']'')))"

definition spec_tag :: "string \<Rightarrow> bool" where
  "spec_tag t = (\<exists>closing nm. spec_construct closing nm t)"

lemma not_spec_tag: "\<not> spec_tag ''[/b x]''"
proof
  assume "spec_tag ''[/b x]''"
  then obtain cl nm where c: "spec_construct cl nm ''[/b x]''" by (auto simp: spec_tag_def)
  then have n: "spec_name nm" by (simp add: spec_construct_def)
  show False
  proof (cases cl)
    case True
    with c have "''b x'' @ '']'' = nm @ '']''" by (simp add: spec_construct_def)
    then have "nm = ''b x''" by (simp only: append1_eq_conv)
    with n show False by (simp add: spec_name_def spec_alnum_def)
  next
    case False
    with c obtain as where "''/b x]'' = nm @ as @ '']''" by (auto simp: spec_construct_def)
    with n have "hd nm = CHR ''/''" by (cases nm) (auto simp: spec_name_def)
    with n show False by (simp add: spec_name_def spec_alnum_def)
  qed
qed

lemma spec_alnum_isalnum: "spec_alnum c \<Longrightarrow> isalnum c"
  by (auto simp: spec_alnum_def isalnum_def Let_def)

lemma spec_name_valid: "spec_name nm \<Longrightarrow> valid_name nm"
  by (auto simp: spec_name_def valid_name_def name_start_def name_char_def list_all_iff
      dest: spec_alnum_isalnum)

lemma unquoted_run_items: "unquoted_run a \<Longrightarrow> items r \<Longrightarrow> items (a @ r)"
  by (induction a rule: unquoted_run.induct) (auto intro: items_plain items_escape)

lemma spec_argument_items: "spec_argument a \<Longrightarrow> items r \<Longrightarrow> items (a @ r)"
  by (auto simp: spec_argument_def intro: unquoted_run_items items_quoted)

lemma spec_arguments_items: "spec_arguments as \<Longrightarrow> items as"
  by (induction as rule: spec_arguments.induct)
     (auto intro: items_Nil items_spaces spec_argument_items)

lemma spec_arguments_tail:
  assumes "spec_arguments as"
  shows "tail_ok as"
  using assms
proof cases
  case spec_arguments_Nil
  then show ?thesis by (simp add: tail_ok_def)
next
  case (spec_arguments_more w a r)
  then have "is_whitespace (hd as)" by (cases w) auto
  with spec_arguments_items [OF assms] show ?thesis by (simp add: tail_ok_def)
qed

lemma spec_construct_construct: "spec_construct cl nm t \<Longrightarrow> construct cl nm t"
proof (cases cl)
  case True
  assume "spec_construct cl nm t"
  with True have "valid_name nm" "t = ''['' @ ''/'' @ nm @ [] @ '']''"
    by (auto simp: spec_construct_def dest: spec_name_valid)
  with True show ?thesis unfolding construct_def
    by (intro conjI exI [of _ "[]"]) (simp_all add: tail_ok_def)
next
  case False
  assume "spec_construct cl nm t"
  with False obtain as where "valid_name nm" "spec_arguments as" "t = ''['' @ nm @ as @ '']''"
    by (auto simp: spec_construct_def dest: spec_name_valid)
  with False show ?thesis unfolding construct_def
    by (intro conjI exI [of _ as]) (simp_all add: spec_arguments_tail)
qed

subsection \<open>Scanning past a prefix of a construct\<close>

lemma args_scan_items_append:
  "items v \<Longrightarrow> r \<noteq> [] \<Longrightarrow> args_scan (v @ r) = shift (length v) (args_scan r)"
proof (induction v rule: items.induct)
  case items_Nil
  show ?case by (cases "args_scan r") simp_all
next
  case (items_space c v)
  then have "c \<noteq> CHR '']''" by auto
  with items_space show ?case by (cases "args_scan r") simp_all
next
  case (items_plain c v)
  then show ?case by (cases "args_scan r") (simp_all add: plain_def)
next
  case (items_escape v c)
  then show ?case by (cases "args_scan r") simp_all
next
  case (items_quoted q v)
  then show ?case by (cases "args_scan r") (simp_all add: quoted_scan_body)
qed

lemma ws_len_append_other:
  "r \<noteq> [] \<Longrightarrow> \<not> is_whitespace (hd r) \<Longrightarrow> ws_len (ta @ r) = ws_len ta"
  by (induction ta) (cases r; simp add: ws_len_def)+

fun finish :: "bool \<Rightarrow> string \<Rightarrow> string \<Rightarrow> unit scan \<Rightarrow> (bool \<times> string) scan" where
  "finish cl nm r (Done u k) =
     (if take 1 (drop k r) = '']'' then Done (cl, nm) (Suc k) else Fail MissingTagTerminator k)"
| "finish cl nm r (Fail m k) = Fail m k"
| "finish cl nm r Crash = Crash"

lemma name_and_args_prefix:
  assumes v: "valid_name nm" and ta: "tail_ok ta" "ta \<noteq> []"
    and r: "r \<noteq> []" "\<not> is_whitespace (hd r)"
  shows "name_and_args cl (nm @ ta @ r) = shift (length nm + length ta) (finish cl nm r (args_scan r))"
proof -
  from v obtain c nm1 where nm: "nm = c # nm1" and c: "name_start c" and a: "list_all name_char nm1"
    by (cases nm) (auto simp: valid_name_def)
  from c have "name_char c" by (rule name_start_char)
  with c name_char_not_special [of c] have c': "c \<noteq> backquote" "isalnum c \<or> c = CHR ''#''"
    by (simp_all add: name_start_def)
  from ta obtain d ta1 where d: "ta = d # ta1" "is_whitespace d"
    by (cases ta) (auto simp: tail_ok_def)
  have n: "name_scan (nm1 @ ta @ r) = Done nm1 (length nm1)"
    using name_scan_name [OF a, of d "ta1 @ r"] d by simp
  have i: "items (dropWhile is_whitespace ta)"
    using ta by (auto simp: tail_ok_def dest: items_dropWhile)
  have w: "ws_len (ta @ r) = ws_len ta" using r by (rule ws_len_append_other)
  have k: "args_scan (drop (ws_len ta) ta @ r) = shift (length ta - ws_len ta) (args_scan r)"
    using args_scan_items_append [OF i r(1)] by (simp add: drop_ws_len [symmetric])
  show ?thesis
    using c' n k w ws_len_le [of ta]
    by (cases "args_scan r") (simp_all add: name_and_args_def nm Let_def)
qed

definition tag_prefix :: "bool \<Rightarrow> string \<Rightarrow> string \<Rightarrow> bool" where
  "tag_prefix closing nm p =
     (valid_name nm \<and>
      (\<exists>ta. tail_ok ta \<and> ta \<noteq> [] \<and> p = ''['' @ (if closing then ''/'' else []) @ nm @ ta))"

lemma tag_scan_prefix:
  assumes p: "tag_prefix cl nm p" and r: "r \<noteq> []" "\<not> is_whitespace (hd r)"
  shows "tag_scan (p @ r) = shift (length p) (finish cl nm r (args_scan r))"
proof -
  from p obtain ta where v: "valid_name nm" and ta: "tail_ok ta" "ta \<noteq> []"
    and t: "p = ''['' @ (if cl then ''/'' else []) @ nm @ ta"
    by (auto simp: tag_prefix_def)
  note n = name_and_args_prefix [OF v ta r]
  show ?thesis
  proof (cases cl)
    case True
    with t n [of True] show ?thesis
      by (cases "finish True nm r (args_scan r)") (simp_all add: tag_scan_def)
  next
    case False
    from v obtain c nm1 where nm: "nm = c # nm1" and c: "name_start c"
      by (cases nm) (auto simp: valid_name_def)
    from c have "name_char c" by (rule name_start_char)
    with name_char_not_special [of c] have "c \<noteq> CHR ''/''" by simp
    with False t nm n [of False] show ?thesis
      by (cases "finish False (c # nm1) r (args_scan r)") (simp_all add: tag_scan_def)
  qed
qed


subsection \<open>Whole constructs in the scan\<close>

lemma tag_run_construct:
  "construct cl nm t \<Longrightarrow>
   tag_run S G st (t @ r) =
     (case matcher S G cl nm st of
        Inl (m, st1) \<Rightarrow> Failed m st1 (length t)
      | Inr st1 \<Rightarrow> Finished st1 (length t))"
  by (simp add: tag_run_def tag_scan_construct)

lemma run_construct:
  assumes "construct cl nm t"
  shows "run S G st (t @ r) =
     (case matcher S G cl nm st of
        Inl (m, st1) \<Rightarrow> Failed m st1 (length t)
      | Inr st1 \<Rightarrow> oshift (length t) (run S G st1 r))"
proof -
  from assms obtain t1 where t: "t = CHR ''['' # t1" using construct_Cons by blast
  show ?thesis
  proof (cases "matcher S G cl nm st")
    case (Inl a)
    obtain m st1 where a: "a = (m, st1)" by (cases a)
    from tag_run_construct [OF assms, of S G st r] Inl a
    have "tag_run S G st (CHR ''['' # t1 @ r) = Failed m st1 (length t)" by (simp add: t)
    with Inl a show ?thesis by (simp add: t)
  next
    case (Inr st1)
    from tag_run_construct [OF assms, of S G st r] Inr
    have "tag_run S G st (CHR ''['' # t1 @ r) = Finished st1 (Suc (length t1))" by (simp add: t)
    with Inr show ?thesis by (simp add: t)
  qed
qed

text \<open>Lines and columns over text without a newline\<close>

lemma adv_same_line:
  "n \<le> length (rest s) \<Longrightarrow> CHR 0x0A \<notin> set (take n (rest s)) \<Longrightarrow>
   line (adv n s) = line s \<and> col (adv n s) = col s + n"
proof (induction n arbitrary: s)
  case 0
  show ?case by simp
next
  case (Suc n)
  then obtain c r where a: "rest s = c # r" by (cases "rest s") auto
  note f = rest_Cons [OF a]
  from a have "code s ! pos s = c"
    using f by (simp add: current_char_def split: if_splits)
  with Suc.prems a have l: "line (step s) = line s" "col (step s) = col s + 1"
    by (auto simp: step_def)
  from Suc.prems a f have "n \<le> length (rest (step s))" "CHR 0x0A \<notin> set (take n (rest (step s)))"
    by auto
  from Suc.IH [OF this] l show ?case by simp
qed

lemma valid_name_no_newline: "valid_name nm \<Longrightarrow> CHR 0x0A \<notin> set nm"
proof
  assume v: "valid_name nm" and "CHR 0x0A \<in> set nm"
  then have "name_char (CHR 0x0A)"
    by (cases nm) (auto simp: valid_name_def list_all_iff dest: name_start_char)
  with name_char_not_special [of "CHR 0x0A"] show False by (simp add: is_whitespace_def)
qed

lemma bare_construct: "valid_name nm \<Longrightarrow> construct cl nm (''['' @ (if cl then ''/'' else []) @ nm @ '']'')"
  unfolding construct_def by (intro conjI exI [of _ "[]"]) (simp_all add: tail_ok_def)

subsection \<open>Interleaved and balanced inputs\<close>

definition interleaved :: "string \<Rightarrow> string \<Rightarrow> string" where
  "interleaved A B = ''['' @ A @ '']'' @ ''['' @ B @ '']'' @ ''[/'' @ A @ '']'' @ ''[/'' @ B @ '']''"

lemma run_interleaved:
  assumes v: "valid_name A" "valid_name B" and d: "A \<noteq> B"
    and g: "A \<in> G" "B \<in> G" and s: "A \<notin> S" "B \<notin> S"
  shows "run S G [] (interleaved A B) = Failed (MismatchedClose A B) [A] (2 * length A + length B + 7)"
proof -
  have oa: "construct False A (''['' @ A @ '']'')" using bare_construct [OF v(1), of False] by simp
  have ob: "construct False B (''['' @ B @ '']'')" using bare_construct [OF v(2), of False] by simp
  have ca: "construct True A (''[/'' @ A @ '']'')" using bare_construct [OF v(1), of True] by simp
  have 1: "run S G [A, B] ((''[/'' @ A @ '']'') @ (''[/'' @ B @ '']''))
      = Failed (MismatchedClose A B) [A] (length A + 3)"
    using d s run_construct [OF ca, of S G "[A, B]" "''[/'' @ B @ '']''"]
    by (simp add: matcher_def)
  have 2: "run S G [A] ((''['' @ B @ '']'') @ (''[/'' @ A @ '']'') @ (''[/'' @ B @ '']''))
      = Failed (MismatchedClose A B) [A] (length B + 2 + (length A + 3))"
    using g s 1 run_construct [OF ob, of S G "[A]" "(''[/'' @ A @ '']'') @ (''[/'' @ B @ '']'')"]
    by (simp add: matcher_def)
  have 3: "run S G [] ((''['' @ A @ '']'') @ (''['' @ B @ '']'') @ (''[/'' @ A @ '']'') @ (''[/'' @ B @ '']''))
      = Failed (MismatchedClose A B) [A] (length A + 2 + (length B + 2 + (length A + 3)))"
    using g s 2 run_construct [OF oa, of S G "[]"
        "(''['' @ B @ '']'') @ (''[/'' @ A @ '']'') @ (''[/'' @ B @ '']'')"]
    by (simp add: matcher_def)
  then show ?thesis by (simp add: interleaved_def)
qed

inductive balanced :: "string set \<Rightarrow> string set \<Rightarrow> string \<Rightarrow> bool" for S G where
  balanced_empty: "balanced S G []"
| balanced_single: "nm \<in> S \<Longrightarrow> construct False nm t \<Longrightarrow> balanced S G t"
| balanced_group:
    "nm \<in> G \<Longrightarrow> construct False nm ot \<Longrightarrow> construct True nm ct \<Longrightarrow> balanced S G body \<Longrightarrow>
     balanced S G (ot @ body @ ct)"
| balanced_seq: "balanced S G a \<Longrightarrow> balanced S G b \<Longrightarrow> balanced S G (a @ b)"

lemma oshift_0 [simp]: "oshift 0 x = x"
  by (cases x) simp_all

lemma oshift_oshift [simp]: "oshift a (oshift b x) = oshift (a + b) x"
  by (cases x) simp_all

lemma run_balanced:
  assumes d: "S \<inter> G = {}"
  shows "balanced S G t \<Longrightarrow> run S G st (t @ r) = oshift (length t) (run S G st r)"
proof (induction t arbitrary: st r rule: balanced.induct)
  case balanced_empty
  show ?case by simp
next
  case (balanced_single nm t)
  then show ?case by (simp add: run_construct matcher_def)
next
  case (balanced_group nm ot ct body)
  from balanced_group(1) d have ns: "nm \<notin> S" by auto
  have 1: "run S G st (ot @ (body @ ct @ r)) = oshift (length ot) (run S G (st @ [nm]) (body @ ct @ r))"
    using ns balanced_group(1) by (simp add: run_construct [OF balanced_group(2)] matcher_def)
  have 2: "run S G (st @ [nm]) (body @ (ct @ r)) = oshift (length body) (run S G (st @ [nm]) (ct @ r))"
    by (rule balanced_group.IH)
  have 3: "run S G (st @ [nm]) (ct @ r) = oshift (length ct) (run S G st r)"
    using ns by (simp add: run_construct [OF balanced_group(3)] matcher_def)
  from 1 2 3 show ?case by (simp add: add.assoc)
next
  case (balanced_seq a b)
  have "run S G st (a @ (b @ r)) = oshift (length a) (run S G st (b @ r))"
    by (rule balanced_seq.IH(1))
  with balanced_seq.IH(2) [of st r] show ?case by (simp add: add.assoc)
qed

subsection \<open>Quoted arguments that are not closed\<close>

text \<open>
  \<open>closed_quote\<close>: the content after an opening double quote holds an unescaped double
  quote. \<open>lone_escape\<close>: read in escape pairs, the content ends with an escape marker
  that has no character after it.
\<close>

fun closed_quote :: "string \<Rightarrow> bool" where
  "closed_quote [] = False"
| "closed_quote [c] = (c = dquote)"
| "closed_quote (c # d # r) =
     (if c = backquote then closed_quote r else c = dquote \<or> closed_quote (d # r))"

fun lone_escape :: "string \<Rightarrow> bool" where
  "lone_escape [] = False"
| "lone_escape [c] = (c = backquote)"
| "lone_escape (c # d # r) = (if c = backquote then lone_escape r else lone_escape (d # r))"

lemma quoted_scan_open:
  "\<not> closed_quote content \<Longrightarrow>
   quoted_scan content =
     Fail (if lone_escape content then DanglingEscapeQuoted else UnterminatedQuotedArgument)
       (length content)"
proof (induction content rule: closed_quote.induct)
  case 1
  show ?case by simp
next
  case (2 c)
  then show ?case by simp
next
  case (3 c d r)
  show ?case
  proof (cases "c = backquote")
    case True
    with 3 show ?thesis by simp
  next
    case False
    with "3.prems" have n: "c \<noteq> dquote" "\<not> closed_quote (d # r)" by simp_all
    from "3.IH"(2) [OF False n(2)] False n(1) show ?thesis by simp
  qed
qed

lemma tag_prefix_Cons: "tag_prefix cl nm p \<Longrightarrow> \<exists>p1. p = CHR ''['' # p1"
  by (auto simp: tag_prefix_def)

lemma run_open_quote:
  assumes p: "tag_prefix cl nm p" and c: "\<not> closed_quote content"
  shows "run S G st (p @ dquote # content) =
     Failed (if lone_escape content then DanglingEscapeQuoted else UnterminatedQuotedArgument) st
       (length p + Suc (length content))"
proof -
  have "tag_scan (p @ dquote # content) =
     Fail (if lone_escape content then DanglingEscapeQuoted else UnterminatedQuotedArgument)
       (length p + Suc (length content))"
    using tag_scan_prefix [OF p, of "dquote # content"] quoted_scan_open [OF c] by simp
  then have "tag_run S G st (p @ dquote # content) =
     Failed (if lone_escape content then DanglingEscapeQuoted else UnterminatedQuotedArgument) st
       (length p + Suc (length content))"
    by (simp add: tag_run_def)
  moreover from p obtain p1 where "p = CHR ''['' # p1" using tag_prefix_Cons by blast
  ultimately show ?thesis by simp
qed

lemma tag_prefix_b: "tag_prefix False ''b'' ''[b ''"
proof -
  have "items '' ''"
    by (intro items_space items_Nil) (simp add: is_whitespace_def)
  then have "tail_ok '' ''" by (simp add: tail_ok_def is_whitespace_def)
  moreover have "valid_name ''b''" by (simp add: valid_name_def name_start_def isalnum_def)
  ultimately show ?thesis
    unfolding tag_prefix_def by (intro conjI exI [of _ "'' ''"]) simp_all
qed

subsection \<open>Literal text\<close>

text \<open>
  A literal unit is an escape pair (the escape marker and any character) or one ordinary
  character: at top level any character but the escape marker and the opening bracket,
  inside an unquoted argument a character that is neither whitespace, a bracket, a double
  quote nor the escape marker.
\<close>

definition literal_unit :: "bool \<Rightarrow> string \<Rightarrow> bool" where
  "literal_unit in_arg e =
     ((\<exists>c. e = [backquote, c])
      \<or> (\<exists>x. e = [x] \<and> x \<noteq> backquote \<and> x \<noteq> CHR ''['' \<and> (in_arg \<longrightarrow> plain x)))"

text \<open>
  Where the scan stands: at top level, or (\<open>in_arg\<close>) in the argument loop of a tag,
  after the bracket, the name, whitespace and complete arguments or parts of an unquoted
  argument.
\<close>

definition scan_context :: "bool \<Rightarrow> string \<Rightarrow> bool" where
  "scan_context in_arg p = (if in_arg then (\<exists>cl nm. tag_prefix cl nm p) else p = [])"

text \<open>
  What a run of \<open>check\<close> shows of the structure: the verdict, the stack, and the
  message and stack of the failure, raised or printed; not the line and the column.
\<close>

fun printed_text :: "printed \<Rightarrow> message + string list" where
  "printed_text (ErrMsg l k m) = Inl m"
| "printed_text (StackDump st) = Inr st"

definition summary ::
  "exn + (bool \<times> checker) \<Rightarrow>
   (message \<times> string list) option + (bool \<times> string list \<times> (message + string list) list)"
where
  "summary r =
     (case r of
        Inl (DSLSyntaxError l k m st) \<Rightarrow> Inl (Some (m, st))
      | Inl IndexError \<Rightarrow> Inl None
      | Inr (b, s1) \<Rightarrow> Inr (b, stack s1, map printed_text (stdout s1)))"

fun forget :: "outcome \<Rightarrow> outcome" where
  "forget (Finished st n) = Finished st 0"
| "forget (Failed m st n) = Failed m st 0"
| "forget Crashed = Crashed"

lemma forget_oshift [simp]: "forget (oshift k x) = forget x"
  by (cases x) simp_all

definition after_args ::
  "string set \<Rightarrow> string set \<Rightarrow> string list \<Rightarrow> bool \<Rightarrow> string \<Rightarrow> string \<Rightarrow> outcome" where
  "after_args S G st cl nm v =
     (case finish cl nm v (args_scan v) of
        Done x k \<Rightarrow>
          (case matcher S G cl nm st of
             Inl (m, st1) \<Rightarrow> Failed m st1 k
           | Inr st1 \<Rightarrow> oshift k (run S G st1 (drop k v)))
      | Fail m k \<Rightarrow> Failed m st k
      | Crash \<Rightarrow> Crashed)"

lemma run_literal_top:
  "literal_unit False e \<Longrightarrow> run S G st (e @ v) = oshift (length e) (run S G st v)"
  by (auto simp: literal_unit_def numeral_2_eq_2)

lemma args_scan_literal:
  "literal_unit True e \<Longrightarrow> args_scan (e @ v) = shift (length e) (args_scan v)"
  by (auto simp: literal_unit_def plain_def numeral_2_eq_2)

lemma literal_unit_hd:
  "literal_unit True e \<Longrightarrow> e @ v \<noteq> [] \<and> \<not> is_whitespace (hd (e @ v))"
  by (auto simp: literal_unit_def plain_def)

lemma finish_shift:
  "finish cl nm (e @ v) (shift (length e) x) = shift (length e) (finish cl nm v x)"
  by (cases x) simp_all

lemma finish_Done: "finish cl nm v x = Done y k \<Longrightarrow> y = (cl, nm)"
  by (cases x) (auto split: if_splits)

lemma run_literal_arg:
  assumes p: "tag_prefix cl nm p" and e: "literal_unit True e"
  shows "run S G st (p @ e @ v) = oshift (length p + length e) (after_args S G st cl nm v)"
proof -
  from p obtain p1 where p1: "p = CHR ''['' # p1" using tag_prefix_Cons by blast
  from literal_unit_hd [OF e, of v] have h: "e @ v \<noteq> []" "\<not> is_whitespace (hd (e @ v))"
    by simp_all
  have ts: "tag_scan (p @ e @ v) = shift (length p + length e) (finish cl nm v (args_scan v))"
    using tag_scan_prefix [OF p h] args_scan_literal [OF e, of v]
    by (cases "finish cl nm v (args_scan v)") (simp_all add: finish_shift)
  show ?thesis
  proof (cases "finish cl nm v (args_scan v)")
    case (Done y k)
    then have y: "y = (cl, nm)" by (rule finish_Done)
    show ?thesis
    proof (cases "matcher S G cl nm st")
      case (Inl a)
      obtain m st1 where a: "a = (m, st1)" by (cases a)
      from ts Done y Inl a
      have "tag_run S G st (CHR ''['' # p1 @ e @ v) = Failed m st1 (length p + length e + k)"
        by (simp add: tag_run_def p1)
      with Done y Inl a show ?thesis by (simp add: after_args_def p1)
    next
      case (Inr st1)
      from ts Done y Inr
      have "tag_run S G st (CHR ''['' # p1 @ e @ v) = Finished st1 (length p + length e + k)"
        by (simp add: tag_run_def p1)
      with Done y Inr show ?thesis by (simp add: after_args_def p1 add.assoc)
    qed
  next
    case (Fail m k)
    with ts have "tag_run S G st (CHR ''['' # p1 @ e @ v) = Failed m st (length p + length e + k)"
      by (simp add: tag_run_def p1)
    with Fail show ?thesis by (simp add: after_args_def p1)
  next
    case Crash
    with ts have "tag_run S G st (CHR ''['' # p1 @ e @ v) = Crashed" by (simp add: tag_run_def p1)
    with Crash show ?thesis by (simp add: after_args_def p1)
  qed
qed

lemma run_literal:
  assumes "scan_context in_arg p" "literal_unit in_arg e1" "literal_unit in_arg e2"
  shows "forget (run S G st (p @ e1 @ v)) = forget (run S G st (p @ e2 @ v))"
proof (cases in_arg)
  case True
  with assms obtain cl nm where "tag_prefix cl nm p" by (auto simp: scan_context_def)
  with assms True show ?thesis by (simp add: run_literal_arg)
next
  case False
  with assms show ?thesis by (simp add: scan_context_def run_literal_top)
qed

lemma forget_verdict:
  "forget (run S G st t1) = forget (run S G st t2) \<Longrightarrow>
   forget (verdict S G st t1) = forget (verdict S G st t2)"
  by (cases "run S G st t1"; cases "run S G st t2") (simp_all add: verdict_def)

lemma summary_result:
  "forget x = forget y \<Longrightarrow> raise_exception s1 = raise_exception s2 \<Longrightarrow> stdout s1 = stdout s2 \<Longrightarrow>
   summary (result s1 x) = summary (result s2 y)"
  by (cases x; cases y) (simp_all add: summary_def error_def)

subsection \<open>Names of ASCII characters\<close>

definition is_ascii :: "char \<Rightarrow> bool" where
  "is_ascii c = ((of_char c :: nat) < 128)"

text \<open>
  \<open>surface_construct closing nm t\<close>: the text \<open>t\<close> is a tag construct as the parser
  accepts it, with a name of the specification.
\<close>

definition surface_construct :: "bool \<Rightarrow> string \<Rightarrow> string \<Rightarrow> bool" where
  "surface_construct closing nm t =
     (spec_name nm \<and>
      (\<exists>ta. tail_ok ta \<and> t = ''['' @ (if closing then ''/'' else []) @ nm @ ta @ '']''))"

lemma isalnum_ascii: "is_ascii c \<Longrightarrow> isalnum c = spec_alnum c"
  by (auto simp: is_ascii_def isalnum_def spec_alnum_def Let_def)

lemma valid_name_ascii: "list_all is_ascii nm \<Longrightarrow> valid_name nm = spec_name nm"
proof -
  assume a: "list_all is_ascii nm"
  show ?thesis
  proof (cases nm)
    case Nil
    then show ?thesis by (simp add: valid_name_def spec_name_def)
  next
    case (Cons c r)
    with a have c: "is_ascii c" and r: "list_all is_ascii r" by simp_all
    from r have "list_all name_char r =
        list_all (\<lambda>c. spec_alnum c \<or> c = CHR ''#'' \<or> c = CHR ''_'' \<or> c = CHR ''-'') r"
      by (induction r) (simp_all add: name_char_def isalnum_ascii)
    with c Cons show ?thesis
      by (simp add: valid_name_def spec_name_def name_start_def isalnum_ascii)
  qed
qed

lemma construct_ascii:
  "list_all is_ascii nm \<Longrightarrow> construct cl nm t = surface_construct cl nm t"
  by (simp add: construct_def surface_construct_def valid_name_ascii)

lemma spec_construct_surface: "spec_construct cl nm t \<Longrightarrow> surface_construct cl nm t"
proof -
  assume s: "spec_construct cl nm t"
  then have "spec_name nm" by (simp add: spec_construct_def)
  moreover from s have "construct cl nm t" by (rule spec_construct_construct)
  ultimately show ?thesis by (auto simp: construct_def surface_construct_def)
qed

section \<open>Properties\<close>

text \<open>
  C8. The specification requires every call of \<open>advance\<close> to happen where a character
  exists. The argument loop breaks this: after an argument, whitespace that runs to the end
  of the input is skipped, the tests for the closing bracket and the double quote fail on
  the missing character, and the unquoted branch calls \<open>advance\<close> at the end of the
  input. On the input \<open>[b a \<close> (with a trailing space) the index is out of range, for
  all tag sets and in both modes.
\<close>

theorem advance_out_of_range: "check_syntax ''[b a '' S G r = Inl IndexError"
  by (simp add: check_syntax_eq scan_defs)

text \<open>
  C10. At top level every character other than the escape marker and the opening bracket
  is consumed as ordinary text: the scan goes on from the next position with the same
  stack and nothing printed, so the character by itself causes no failure. In particular an
  unescaped closing bracket is ordinary text, and the input \<open>a]b\<close> is accepted.
\<close>

theorem top_level_ordinary_text:
  "(\<forall>s c. current_char s = Some c \<and> c \<noteq> backquote \<and> c \<noteq> CHR ''['' \<longrightarrow>
      (\<exists>s1. advance s = Inr (c, s1) \<and> stack s1 = stack s \<and> stdout s1 = stdout s
         \<and> check_loop s = check_loop s1 \<and> check s = check s1))
   \<and> (\<forall>S G r. check_syntax ''a]b'' S G r = Inr True)"
proof (intro conjI allI impI)
  fix s c
  assume h: "current_char s = Some c \<and> c \<noteq> backquote \<and> c \<noteq> CHR ''[''"
  then obtain r where a: "rest s = c # r"
    by (cases "rest s") (auto simp: current_char_rest)
  note f = rest_Cons [OF a]
  from a have p: "pos s < length (code s)" by (simp add: rest_pos)
  have l: "check_loop s = check_loop (step s)"
    using f h p by (simp add: check_loop.simps [of s])
  then have "check s = check (step s)" by (simp add: check_def)
  with l f show "\<exists>s1. advance s = Inr (c, s1) \<and> stack s1 = stack s \<and> stdout s1 = stdout s
         \<and> check_loop s = check_loop s1 \<and> check s = check s1"
    by simp
next
  fix S G r
  show "check_syntax ''a]b'' S G r = Inr True"
    by (simp add: check_syntax_eq scan_defs)
qed

theorem top_level_ordinary_text_witness:
  "current_char ((SyntaxChecker ''a]b'' {} {} False)\<lparr>pos := 1, col := 2\<rparr>) = Some CHR '']''
   \<and> CHR '']'' \<noteq> backquote \<and> CHR '']'' \<noteq> CHR ''[''
   \<and> (\<exists>s1. advance ((SyntaxChecker ''a]b'' {} {} False)\<lparr>pos := 1, col := 2\<rparr>) = Inr (CHR '']'', s1)
         \<and> check ((SyntaxChecker ''a]b'' {} {} False)\<lparr>pos := 1, col := 2\<rparr>) = check s1)"
proof -
  have h: "current_char ((SyntaxChecker ''a]b'' {} {} False)\<lparr>pos := 1, col := 2\<rparr>) = Some CHR '']''
     \<and> CHR '']'' \<noteq> backquote \<and> CHR '']'' \<noteq> CHR ''[''"
    by (simp add: current_char_def SyntaxChecker_def backquote_def)
  from top_level_ordinary_text h show ?thesis by blast
qed


text \<open>
  C7. For every input and all tag sets the two modes report the same failure. The
  reporting mode returns true exactly when the throwing mode returns true, and the throwing
  mode never returns false. When the reporting mode returns false, the throwing mode raises
  the structured failure with the line, column, message and stack that the reporting mode
  printed, and conversely. The only other outcome, an index out of range, is the same in
  both modes.
\<close>

theorem modes_agree:
  "(check_syntax c S G False = Inr True \<longleftrightarrow> check_syntax c S G True = Inr True)
   \<and> check_syntax c S G True \<noteq> Inr False
   \<and> (\<forall>s1. check (SyntaxChecker c S G False) = Inr (False, s1) \<longrightarrow>
         (\<exists>m. check (SyntaxChecker c S G True) = Inl (DSLSyntaxError (line s1) (col s1) m (stack s1))
            \<and> stdout s1 = [ErrMsg (line s1) (col s1) m, StackDump (stack s1)]))
   \<and> (\<forall>l k m st. check (SyntaxChecker c S G True) = Inl (DSLSyntaxError l k m st) \<longrightarrow>
         (\<exists>s1. check (SyntaxChecker c S G False) = Inr (False, s1)
            \<and> line s1 = l \<and> col s1 = k \<and> stack s1 = st
            \<and> stdout s1 = [ErrMsg l k m, StackDump st]))
   \<and> (\<forall>e. check (SyntaxChecker c S G False) = Inl e \<longrightarrow>
         e = IndexError \<and> check (SyntaxChecker c S G True) = Inl IndexError)"
  by (cases "verdict S G [] c") (simp_all add: check_syntax_def check_initial Let_def)

theorem modes_agree_witness:
  "check_syntax ''[b]bold[/b]'' {''br''} {''b'', ''i''} False = Inr True
   \<and> check_syntax ''[b]bold[/b]'' {''br''} {''b'', ''i''} True = Inr True
   \<and> (\<exists>s1. check (SyntaxChecker ''[b]x[/i]'' {''br''} {''b'', ''i''} False) = Inr (False, s1)
         \<and> stdout s1 = [ErrMsg 1 9 (MismatchedClose ''i'' ''b''), StackDump []])
   \<and> check (SyntaxChecker ''[b]x[/i]'' {''br''} {''b'', ''i''} True)
       = Inl (DSLSyntaxError 1 9 (MismatchedClose ''i'' ''b'') [])"
proof -
  have t: "check_syntax ''[b]bold[/b]'' {''br''} {''b'', ''i''} True = Inr True"
    by code_simp
  have e: "check (SyntaxChecker ''[b]x[/i]'' {''br''} {''b'', ''i''} True)
       = Inl (DSLSyntaxError 1 9 (MismatchedClose ''i'' ''b'') [])"
    by code_simp
  from t modes_agree [of "''[b]bold[/b]''" "{''br''}" "{''b'', ''i''}"]
  have "check_syntax ''[b]bold[/b]'' {''br''} {''b'', ''i''} False = Inr True" by blast
  moreover from e modes_agree [of "''[b]x[/i]''" "{''br''}" "{''b'', ''i''}"]
  have "\<exists>s1. check (SyntaxChecker ''[b]x[/i]'' {''br''} {''b'', ''i''} False) = Inr (False, s1)
         \<and> stdout s1 = [ErrMsg 1 9 (MismatchedClose ''i'' ''b''), StackDump []]"
    by blast
  ultimately show ?thesis using t e by blast
qed


text \<open>
  C3. \<open>check\<close> returns true only if the scan loop ran to the end of the input and left
  the stack empty. Whenever the scan loop reaches the end of the input with a non-empty
  stack, \<open>check\<close> fails with \<open>UnclosedTags\<close>, and the failure carries the line, the
  column and the stack of that moment: raised in throwing mode, printed (and false returned)
  in reporting mode.
\<close>

theorem stack_empty_at_end:
  "(\<forall>s1. check s = Inr (True, s1) \<longrightarrow>
      check_loop s = Inr (Continue s1) \<and> \<not> pos s1 < length (code s1) \<and> stack s1 = [])
   \<and> (\<forall>s1. check_loop s = Inr (Continue s1) \<and> stack s1 \<noteq> [] \<longrightarrow>
         \<not> pos s1 < length (code s1)
         \<and> check s = error UnclosedTags s1
         \<and> (raise_exception s1 \<longrightarrow>
              check s = Inl (DSLSyntaxError (line s1) (col s1) UnclosedTags (stack s1)))
         \<and> (\<not> raise_exception s1 \<longrightarrow>
              check s = Inr (False, s1\<lparr>stdout := stdout s1 @
                [ErrMsg (line s1) (col s1) UnclosedTags, StackDump (stack s1)]\<rparr>)))"
proof (intro conjI allI impI)
  fix s1
  assume h: "check s = Inr (True, s1)"
  then have l: "check_loop s = Inr (Continue s1) \<and> stack s1 = []"
    by (auto simp: check_def error_def split: sum.splits flow.splits if_splits
        dest: check_loop_Return)
  then show "check_loop s = Inr (Continue s1)" by simp
  from l show "stack s1 = []" by simp
  from l show "\<not> pos s1 < length (code s1)" by (blast dest: check_loop_Continue)
next
  fix s1
  assume h: "check_loop s = Inr (Continue s1) \<and> stack s1 \<noteq> []"
  then show "\<not> pos s1 < length (code s1)" by (blast dest: check_loop_Continue)
  from h show "check s = error UnclosedTags s1" by (simp add: check_def)
  from h show "raise_exception s1 \<Longrightarrow>
     check s = Inl (DSLSyntaxError (line s1) (col s1) UnclosedTags (stack s1))"
    by (simp add: check_def error_def)
  from h show "\<not> raise_exception s1 \<Longrightarrow>
     check s = Inr (False, s1\<lparr>stdout := stdout s1 @
                [ErrMsg (line s1) (col s1) UnclosedTags, StackDump (stack s1)]\<rparr>)"
    by (simp add: check_def error_def)
qed

theorem stack_empty_at_end_witness:
  "check_loop (SyntaxChecker ''[b]unclosed'' {''br''} {''b''} True)
     = Inr (Continue \<lparr>code = ''[b]unclosed'', single_tags = {''br''}, group_tags = {''b''},
         pos = 11, line = 1, col = 12, stack = [''b''], raise_exception = True, stdout = []\<rparr>)
   \<and> check (SyntaxChecker ''[b]unclosed'' {''br''} {''b''} True)
     = Inl (DSLSyntaxError 1 12 UnclosedTags [''b''])
   \<and> check (SyntaxChecker ''[b][/b]'' {''br''} {''b''} True)
     = Inr (True, \<lparr>code = ''[b][/b]'', single_tags = {''br''}, group_tags = {''b''},
         pos = 7, line = 1, col = 8, stack = [], raise_exception = True, stdout = []\<rparr>)
   \<and> check_loop (SyntaxChecker ''[b][/b]'' {''br''} {''b''} True)
     = Inr (Continue \<lparr>code = ''[b][/b]'', single_tags = {''br''}, group_tags = {''b''},
         pos = 7, line = 1, col = 8, stack = [], raise_exception = True, stdout = []\<rparr>)"
proof -
  define u where "u = \<lparr>code = ''[b]unclosed'', single_tags = {''br''}, group_tags = {''b''},
         pos = 11, line = 1, col = 12, stack = [''b''], raise_exception = True, stdout = []\<rparr>"
  define v where "v = \<lparr>code = ''[b][/b]'', single_tags = {''br''}, group_tags = {''b''},
         pos = 7, line = 1, col = 8, stack = [], raise_exception = True, stdout = []\<rparr>"
  have l: "check_loop (SyntaxChecker ''[b]unclosed'' {''br''} {''b''} True) = Inr (Continue u)"
    unfolding u_def by code_simp
  have c: "check (SyntaxChecker ''[b][/b]'' {''br''} {''b''} True) = Inr (True, v)"
    unfolding v_def by code_simp
  have su: "stack u \<noteq> []" "raise_exception u" "line u = 1" "col u = 12" "stack u = [''b'']"
    by (simp_all add: u_def)
  from l su(1) have p: "check_loop (SyntaxChecker ''[b]unclosed'' {''br''} {''b''} True)
      = Inr (Continue u) \<and> stack u \<noteq> []" by (rule conjI)
  note th = stack_empty_at_end [of "SyntaxChecker ''[b]unclosed'' {''br''} {''b''} True",
      THEN conjunct2, THEN spec, of u, THEN mp, OF p]
  from th su(2) have "check (SyntaxChecker ''[b]unclosed'' {''br''} {''b''} True)
     = Inl (DSLSyntaxError (line u) (col u) UnclosedTags (stack u))"
    by blast
  then have a: "check (SyntaxChecker ''[b]unclosed'' {''br''} {''b''} True)
     = Inl (DSLSyntaxError 1 12 UnclosedTags [''b''])"
    by (simp only: su)
  note th2 = stack_empty_at_end [of "SyntaxChecker ''[b][/b]'' {''br''} {''b''} True",
      THEN conjunct1, THEN spec, of v, THEN mp, OF c]
  then have b: "check_loop (SyntaxChecker ''[b][/b]'' {''br''} {''b''} True) = Inr (Continue v)"
    by (rule conjunct1)
  from l a c b show ?thesis
    unfolding u_def v_def by (intro conjI)
qed


text \<open>
  C1, as the specification states it, fails: the parser reads arguments after the name of a
  closing construct exactly as after the name of an opening one. The text \<open>[/b x]\<close> is
  parsed as the closing construct of \<open>b\<close>, and it is no construct of the surface grammar.
\<close>

theorem closing_with_argument_counterexample:
  "current_char (SyntaxChecker ''[/b x]'' {} {} False) = Some CHR ''[''
   \<and> tag_construct (SyntaxChecker ''[/b x]'' {} {} False)
     = Inr (Continue (True, ''b'', \<lparr>code = ''[/b x]'', single_tags = {}, group_tags = {},
         pos = 6, line = 1, col = 7, stack = [], raise_exception = False, stdout = []\<rparr>))
   \<and> \<not> spec_tag ''[/b x]''"
proof -
  have "current_char (SyntaxChecker ''[/b x]'' {} {} False) = Some CHR ''[''"
    by code_simp
  moreover have "tag_construct (SyntaxChecker ''[/b x]'' {} {} False)
     = Inr (Continue (True, ''b'', \<lparr>code = ''[/b x]'', single_tags = {}, group_tags = {},
         pos = 6, line = 1, col = 7, stack = [], raise_exception = False, stdout = []\<rparr>))"
    by code_simp
  ultimately show ?thesis using not_spec_tag by simp
qed

text \<open>
  C1, amended. For a name of ASCII characters: entered at an opening bracket, the Tag
  Construct Parser succeeds, consuming exactly the text \<open>t\<close> and yielding the closing
  marker and the name, if and only if \<open>t\<close> is the opening bracket, an optional slash,
  the name, a tail and the closing bracket, where the name matches
  \<open>[A-Za-z0-9#][A-Za-z0-9#_-]*\<close> and the tail is empty, or starts with a whitespace
  character and is any sequence of whitespace characters, double-quoted runs, escape pairs
  and ordinary characters. So the first argument is preceded by whitespace, a closing
  construct may carry arguments, whitespace may precede the closing bracket, and a quoted
  run may follow another argument directly. Every construct of the surface grammar of the
  specification is such a construct. Names with other characters are left open: the source
  tests them with \<open>str.isalnum\<close>, against its own comments (lines 108 and 114).
\<close>

theorem tag_construct_grammar:
  "(list_all is_ascii nm \<longrightarrow>
      ((current_char s = Some CHR ''['' \<and>
        (\<exists>s1. tag_construct s = Inr (Continue (cl, nm, s1))
           \<and> t = take (pos s1 - pos s) (drop (pos s) (code s))))
       \<longleftrightarrow> (surface_construct cl nm t \<and> (\<exists>r. drop (pos s) (code s) = t @ r))))
   \<and> (spec_construct cl nm t \<longrightarrow> surface_construct cl nm t)"
  using tag_construct_iff [of s cl nm t] construct_ascii [of nm cl t]
    spec_construct_surface [of cl nm t]
  by blast

theorem tag_construct_grammar_witness:
  "list_all is_ascii ''b'' \<and> surface_construct True ''b'' ''[/b x]''
   \<and> (\<exists>s1. tag_construct (SyntaxChecker ''[/b x]'' {} {''b''} False) = Inr (Continue (True, ''b'', s1)))
   \<and> spec_construct True ''b'' ''[/b]'' \<and> surface_construct True ''b'' ''[/b]''"
proof -
  have a: "list_all is_ascii ''b''" by (simp add: is_ascii_def)
  have n: "spec_name ''b''" by (simp add: spec_name_def spec_alnum_def)
  have i: "items '' x''"
    by (intro items_space items_plain items_Nil)
       (simp_all add: is_whitespace_def plain_def dquote_def backquote_def)
  have "tail_ok '' x''" using i by (simp add: tail_ok_def is_whitespace_def)
  with n have c: "surface_construct True ''b'' ''[/b x]''"
    unfolding surface_construct_def by (intro conjI exI [of _ "'' x''"]) simp_all
  have p: "\<exists>r. drop (pos (SyntaxChecker ''[/b x]'' {} {''b''} False))
     (code (SyntaxChecker ''[/b x]'' {} {''b''} False)) = ''[/b x]'' @ r"
    by (simp add: SyntaxChecker_def)
  from a c p tag_construct_grammar [of "''b''" "SyntaxChecker ''[/b x]'' {} {''b''} False" True "''[/b x]''"]
  have e: "\<exists>s1. tag_construct (SyntaxChecker ''[/b x]'' {} {''b''} False) = Inr (Continue (True, ''b'', s1))"
    by blast
  from n have s: "spec_construct True ''b'' ''[/b]''" by (simp add: spec_construct_def)
  with tag_construct_grammar [of "''b''" _ True "''[/b]''"]
  have "surface_construct True ''b'' ''[/b]''" by blast
  with a c e s show ?thesis by blast
qed

text \<open>
  C2. For disjoint tag-name sets, every input built only from single tags and from
  properly nested pairs of an opening and a closing construct of the same group tag (any
  well-formed constructs, with or without arguments, and no other text) is accepted:
  \<open>check_syntax\<close> returns true, in both modes.
\<close>

theorem balanced_accepted:
  "S \<inter> G = {} \<Longrightarrow> balanced S G t \<Longrightarrow> check_syntax t S G r = Inr True"
proof -
  assume d: "S \<inter> G = {}" and b: "balanced S G t"
  from run_balanced [OF d b, of "[]" "[]"] have "run S G [] t = Finished [] (length t)" by simp
  then show ?thesis by (simp add: check_syntax_eq verdict_def)
qed

theorem balanced_accepted_witness:
  "{''br''} \<inter> {''b'', ''i''} = ({} :: string set)
   \<and> balanced {''br''} {''b'', ''i''} ''[b][br][i x][/i][/b]''
   \<and> check_syntax ''[b][br][i x][/i][/b]'' {''br''} {''b'', ''i''} False = Inr True"
proof -
  have d: "{''br''} \<inter> {''b'', ''i''} = ({} :: string set)" by simp
  have v: "valid_name ''b''" "valid_name ''i''" "valid_name ''br''"
    by (simp_all add: valid_name_def name_start_def name_char_def isalnum_def)
  have "items '' x''"
    by (intro items_space items_plain items_Nil)
       (simp_all add: is_whitespace_def plain_def dquote_def backquote_def)
  then have "tail_ok '' x''" by (simp add: tail_ok_def is_whitespace_def)
  with v(2) have ix: "construct False ''i'' ''[i x]''"
    unfolding construct_def by (intro conjI exI [of _ "'' x''"]) simp_all
  from bare_construct [OF v(2), of True] have ic: "construct True ''i'' ''[/i]''" by simp
  from bare_construct [OF v(1), of False] have bo: "construct False ''b'' ''[b]''" by simp
  from bare_construct [OF v(1), of True] have bc: "construct True ''b'' ''[/b]''" by simp
  from bare_construct [OF v(3), of False] have br: "construct False ''br'' ''[br]''" by simp
  have 1: "balanced {''br''} {''b'', ''i''} ''[br]''"
    by (rule balanced_single [OF _ br]) simp
  have 2: "balanced {''br''} {''b'', ''i''} (''[i x]'' @ [] @ ''[/i]'')"
    by (rule balanced_group [OF _ ix ic balanced_empty]) simp
  have 3: "balanced {''br''} {''b'', ''i''} (''[br]'' @ ''[i x]'' @ [] @ ''[/i]'')"
    using 1 2 by (rule balanced_seq)
  have 4: "balanced {''br''} {''b'', ''i''} (''[b]'' @ (''[br]'' @ ''[i x]'' @ [] @ ''[/i]'') @ ''[/b]'')"
    by (rule balanced_group [OF _ bo bc 3]) simp
  then have b: "balanced {''br''} {''b'', ''i''} ''[b][br][i x][/i][/b]''" by simp
  from balanced_accepted [OF d b] d b show ?thesis by blast
qed

text \<open>
  C4. For two distinct lexically valid names \<open>A\<close> and \<open>B\<close> that are group tags and not
  single tags, the input \<open>[A][B][/A][/B]\<close> never succeeds. It fails at the end of
  \<open>[/A]\<close> with the mismatch failure, whose message names the closing tag \<open>A\<close> and
  the popped tag \<open>B\<close>; the stack of the failure is \<open>[A]\<close>.
\<close>

theorem interleaved_mismatch:
  "valid_name A \<Longrightarrow> valid_name B \<Longrightarrow> A \<noteq> B \<Longrightarrow> A \<in> G \<Longrightarrow> B \<in> G \<Longrightarrow> A \<notin> S \<Longrightarrow> B \<notin> S \<Longrightarrow>
   check_syntax (interleaved A B) S G True
     = Inl (DSLSyntaxError 1 (2 * length A + length B + 8) (MismatchedClose A B) [A])
   \<and> check_syntax (interleaved A B) S G False = Inr False
   \<and> (\<exists>s1. check (SyntaxChecker (interleaved A B) S G False) = Inr (False, s1)
         \<and> stdout s1 = [ErrMsg 1 (2 * length A + length B + 8) (MismatchedClose A B), StackDump [A]])"
proof -
  assume v: "valid_name A" "valid_name B" and d: "A \<noteq> B"
    and g: "A \<in> G" "B \<in> G" and s: "A \<notin> S" "B \<notin> S"
  define n where "n = 2 * length A + length B + 7"
  define s0 where "s0 = SyntaxChecker (interleaved A B) S G False"
  have r: "verdict S G [] (interleaved A B) = Failed (MismatchedClose A B) [A] n"
    using run_interleaved [OF v d g s] by (simp add: verdict_def n_def)
  have r0: "rest s0 = interleaved A B" "line s0 = 1" "col s0 = 1"
    by (simp_all add: s0_def SyntaxChecker_def rest_def)
  have nl: "CHR 0x0A \<notin> set (interleaved A B)"
    using valid_name_no_newline [OF v(1)] valid_name_no_newline [OF v(2)]
    by (simp add: interleaved_def)
  have "n \<le> length (rest s0)" by (simp add: r0 n_def interleaved_def)
  moreover have "CHR 0x0A \<notin> set (take n (rest s0))"
    using nl by (auto simp: r0 dest: in_set_takeD)
  ultimately have lc: "line (adv n s0) = 1" "col (adv n s0) = 2 * length A + length B + 8"
    using adv_same_line [of n s0] by (simp_all add: r0 n_def)
  show ?thesis
    using r lc [unfolded s0_def] by (simp add: check_syntax_def check_initial Let_def)
qed

theorem interleaved_mismatch_witness:
  "valid_name ''b'' \<and> valid_name ''i'' \<and> ''b'' \<noteq> ''i''
   \<and> interleaved ''b'' ''i'' = ''[b][i][/b][/i]''
   \<and> check_syntax ''[b][i][/b][/i]'' {''br''} {''b'', ''i''} True
       = Inl (DSLSyntaxError 1 11 (MismatchedClose ''b'' ''i'') [''b''])
   \<and> check_syntax ''[b][i][/b][/i]'' {''br''} {''b'', ''i''} False = Inr False"
proof -
  have v: "valid_name ''b''" "valid_name ''i''"
    by (simp_all add: valid_name_def name_start_def isalnum_def)
  have d: "''b'' \<noteq> ''i''" by simp
  have i: "interleaved ''b'' ''i'' = ''[b][i][/b][/i]''" by (simp add: interleaved_def)
  from interleaved_mismatch [OF v d, of "{''b'', ''i''}" "{''br''}"] v d i
  show ?thesis by simp
qed

text \<open>
  C9. A name that is in the single set and in the group set is treated as single at every
  occurrence: an opening construct of that name succeeds and leaves the stack and the
  output as they are, and a closing construct of that name fails with
  \<open>CloseOfSingleTag\<close>. The test of the single set comes first in both branches of the
  matcher.
\<close>

theorem single_wins:
  "nm \<in> single_tags s \<Longrightarrow> nm \<in> group_tags s \<Longrightarrow> drop (pos s) (code s) = t @ r \<Longrightarrow>
   (construct False nm t \<longrightarrow>
      (\<exists>s1. parse_tag s = Inr (True, s1) \<and> stack s1 = stack s \<and> stdout s1 = stdout s
         \<and> drop (pos s1) (code s1) = r))
   \<and> (construct True nm t \<longrightarrow>
      (\<exists>s1. parse_tag s = error (CloseOfSingleTag nm) s1 \<and> stack s1 = stack s
         \<and> drop (pos s1) (code s1) = r))
   \<and> nesting_matcher False nm s = Inr (True, s)
   \<and> nesting_matcher True nm s = error (CloseOfSingleTag nm) s"
proof (intro conjI impI)
  assume n: "nm \<in> single_tags s" and d: "drop (pos s) (code s) = t @ r"
  then have r: "rest s = t @ r" by (simp add: rest_def)
  have dr: "\<And>k. drop (pos s + k) (code s) = drop k (rest s)"
    by (simp add: rest_def add.commute)
  {
    assume c: "construct False nm t"
    have "parse_tag s = Inr (True, adv (length t) s)"
      using n r by (simp add: parse_tag_eq tag_run_construct [OF c] matcher_def)
    moreover have "drop (pos (adv (length t) s)) (code (adv (length t) s)) = r"
      using r by (simp add: dr)
    ultimately show "\<exists>s1. parse_tag s = Inr (True, s1) \<and> stack s1 = stack s
        \<and> stdout s1 = stdout s \<and> drop (pos s1) (code s1) = r"
      by (intro exI [of _ "adv (length t) s"]) simp
  }
  {
    assume c: "construct True nm t"
    have "parse_tag s = error (CloseOfSingleTag nm) (adv (length t) s)"
      using n r by (simp add: parse_tag_eq tag_run_construct [OF c] matcher_def)
    moreover have "drop (pos (adv (length t) s)) (code (adv (length t) s)) = r"
      using r by (simp add: dr)
    ultimately show "\<exists>s1. parse_tag s = error (CloseOfSingleTag nm) s1 \<and> stack s1 = stack s
        \<and> drop (pos s1) (code s1) = r"
      by (intro exI [of _ "adv (length t) s"]) simp
  }
  show "nesting_matcher False nm s = Inr (True, s)"
    using n by (simp add: nesting_matcher_def)
  show "nesting_matcher True nm s = error (CloseOfSingleTag nm) s"
    using n by (simp add: nesting_matcher_def)
qed

theorem single_wins_witness:
  "''br'' \<in> single_tags (SyntaxChecker ''[br][/br]'' {''br''} {''br'', ''b''} True)
   \<and> ''br'' \<in> group_tags (SyntaxChecker ''[br][/br]'' {''br''} {''br'', ''b''} True)
   \<and> construct False ''br'' ''[br]''
   \<and> (\<exists>s1. parse_tag (SyntaxChecker ''[br][/br]'' {''br''} {''br'', ''b''} True) = Inr (True, s1)
         \<and> stack s1 = [] \<and> drop (pos s1) (code s1) = ''[/br]'')
   \<and> construct True ''br'' ''[/br]''
   \<and> (\<exists>s1. parse_tag (SyntaxChecker ''[/br]'' {''br''} {''br'', ''b''} True)
         = error (CloseOfSingleTag ''br'') s1 \<and> stack s1 = [])"
proof -
  have v: "valid_name ''br''"
    by (simp add: valid_name_def name_start_def name_char_def isalnum_def)
  from bare_construct [OF v, of False] have o: "construct False ''br'' ''[br]''" by simp
  from bare_construct [OF v, of True] have c: "construct True ''br'' ''[/br]''" by simp
  have m: "''br'' \<in> single_tags (SyntaxChecker ''[br][/br]'' {''br''} {''br'', ''b''} True)"
    "''br'' \<in> group_tags (SyntaxChecker ''[br][/br]'' {''br''} {''br'', ''b''} True)"
    "''br'' \<in> single_tags (SyntaxChecker ''[/br]'' {''br''} {''br'', ''b''} True)"
    "''br'' \<in> group_tags (SyntaxChecker ''[/br]'' {''br''} {''br'', ''b''} True)"
    by (simp_all add: SyntaxChecker_def)
  have d1: "drop (pos (SyntaxChecker ''[br][/br]'' {''br''} {''br'', ''b''} True))
      (code (SyntaxChecker ''[br][/br]'' {''br''} {''br'', ''b''} True)) = ''[br]'' @ ''[/br]''"
    by (simp add: SyntaxChecker_def)
  have d2: "drop (pos (SyntaxChecker ''[/br]'' {''br''} {''br'', ''b''} True))
      (code (SyntaxChecker ''[/br]'' {''br''} {''br'', ''b''} True)) = ''[/br]'' @ []"
    by (simp add: SyntaxChecker_def)
  have s0: "stack (SyntaxChecker ''[br][/br]'' {''br''} {''br'', ''b''} True) = []"
    "stack (SyntaxChecker ''[/br]'' {''br''} {''br'', ''b''} True) = []"
    by (simp_all add: SyntaxChecker_def)
  from single_wins [OF m(1,2) d1] o s0
  have a: "\<exists>s1. parse_tag (SyntaxChecker ''[br][/br]'' {''br''} {''br'', ''b''} True) = Inr (True, s1)
         \<and> stack s1 = [] \<and> drop (pos s1) (code s1) = ''[/br]''"
    by auto
  from single_wins [OF m(3,4) d2] c s0
  have b: "\<exists>s1. parse_tag (SyntaxChecker ''[/br]'' {''br''} {''br'', ''b''} True)
         = error (CloseOfSingleTag ''br'') s1 \<and> stack s1 = []"
    by auto
  from m(1,2) o a c b show ?thesis by blast
qed


text \<open>
  C6, as the specification states it, fails for content whose last character is an escape
  marker with nothing after it: the quoted loop has a message of its own for this case
  (line 150).
\<close>

theorem lone_escape_in_quote_counterexample:
  "check (SyntaxChecker (''[b '' @ dquote # ''abc'' @ [backquote]) {} {''b''} True)
     = Inl (DSLSyntaxError 1 9 DanglingEscapeQuoted [])
   \<and> DanglingEscapeQuoted \<noteq> UnterminatedQuotedArgument
   \<and> \<not> closed_quote (''abc'' @ [backquote])"
proof -
  have "check (SyntaxChecker (''[b '' @ dquote # ''abc'' @ [backquote]) {} {''b''} True)
     = Inl (DSLSyntaxError 1 9 DanglingEscapeQuoted [])"
    by code_simp
  moreover have "\<not> closed_quote (''abc'' @ [backquote])"
    by (simp add: dquote_def backquote_def)
  ultimately show ?thesis by simp
qed

text \<open>
  C6, amended. Whenever the scan stands at a tag whose name and complete arguments are
  followed by an opening double quote, and the input ends before an unescaped closing
  double quote, \<open>check\<close> fails at the end of the input with
  \<open>UnterminatedQuotedArgument\<close>; except that it fails there with the dangling-escape
  failure of quoted arguments when, read in escape pairs, the content ends with an escape
  marker that has no character after it. Content that ends with an escaped escape marker
  still fails with \<open>UnterminatedQuotedArgument\<close>.
\<close>

theorem unterminated_quote:
  "tag_prefix cl nm p \<Longrightarrow> \<not> closed_quote content \<Longrightarrow>
   drop (pos s) (code s) = p @ dquote # content \<Longrightarrow>
   (\<exists>s1. check s = error (if lone_escape content then DanglingEscapeQuoted
                           else UnterminatedQuotedArgument) s1
      \<and> pos s1 = length (code s1) \<and> code s1 = code s \<and> stack s1 = stack s
      \<and> stdout s1 = stdout s \<and> raise_exception s1 = raise_exception s)"
proof -
  assume p: "tag_prefix cl nm p" and c: "\<not> closed_quote content"
    and d: "drop (pos s) (code s) = p @ dquote # content"
  define n where "n = length p + Suc (length content)"
  from d have r: "rest s = p @ dquote # content" by (simp add: rest_def)
  have "length (drop (pos s) (code s)) = n" by (simp add: d n_def)
  then have l: "pos s + n = length (code s)" using n_def by simp
  have "check s = error (if lone_escape content then DanglingEscapeQuoted
                           else UnterminatedQuotedArgument) (adv n s)"
    using run_open_quote [OF p c] r by (simp add: check_eq verdict_def n_def)
  with l show ?thesis by (intro exI [of _ "adv n s"]) simp
qed

theorem unterminated_quote_witness:
  "tag_prefix False ''b'' ''[b '' \<and> \<not> closed_quote ''abc'' \<and> \<not> lone_escape ''abc''
   \<and> (\<exists>s1. check (SyntaxChecker (''[b '' @ dquote # ''abc'') {} {''b''} True)
          = error UnterminatedQuotedArgument s1 \<and> stack s1 = [])
   \<and> \<not> closed_quote (''abc'' @ [backquote]) \<and> lone_escape (''abc'' @ [backquote])
   \<and> (\<exists>s1. check (SyntaxChecker (''[b '' @ dquote # ''abc'' @ [backquote]) {} {''b''} True)
          = error DanglingEscapeQuoted s1 \<and> stack s1 = [])"
proof -
  have c: "\<not> closed_quote ''abc''" "\<not> lone_escape ''abc''"
    "\<not> closed_quote (''abc'' @ [backquote])" "lone_escape (''abc'' @ [backquote])"
    by (simp_all add: dquote_def backquote_def)
  have d1: "drop (pos (SyntaxChecker (''[b '' @ dquote # ''abc'') {} {''b''} True))
      (code (SyntaxChecker (''[b '' @ dquote # ''abc'') {} {''b''} True))
      = ''[b '' @ dquote # ''abc''"
    by (simp add: SyntaxChecker_def)
  have d2: "drop (pos (SyntaxChecker (''[b '' @ dquote # ''abc'' @ [backquote]) {} {''b''} True))
      (code (SyntaxChecker (''[b '' @ dquote # ''abc'' @ [backquote]) {} {''b''} True))
      = ''[b '' @ dquote # (''abc'' @ [backquote])"
    by (simp add: SyntaxChecker_def)
  have s0: "\<And>t. stack (SyntaxChecker t {} {''b''} True) = []" by (simp add: SyntaxChecker_def)
  from unterminated_quote [OF tag_prefix_b c(1) d1] obtain s1
    where e1: "check (SyntaxChecker (''[b '' @ dquote # ''abc'') {} {''b''} True)
          = error (if lone_escape ''abc'' then DanglingEscapeQuoted
                   else UnterminatedQuotedArgument) s1"
      and t1: "stack s1 = stack (SyntaxChecker (''[b '' @ dquote # ''abc'') {} {''b''} True)"
    by blast
  from e1 c(2) have "check (SyntaxChecker (''[b '' @ dquote # ''abc'') {} {''b''} True)
          = error UnterminatedQuotedArgument s1"
    by (simp only: if_False)
  moreover from t1 have "stack s1 = []" by (simp only: s0)
  ultimately have a: "\<exists>s1. check (SyntaxChecker (''[b '' @ dquote # ''abc'') {} {''b''} True)
          = error UnterminatedQuotedArgument s1 \<and> stack s1 = []"
    by blast
  from unterminated_quote [OF tag_prefix_b c(3) d2] obtain s2
    where e2: "check (SyntaxChecker (''[b '' @ dquote # ''abc'' @ [backquote]) {} {''b''} True)
          = error (if lone_escape (''abc'' @ [backquote]) then DanglingEscapeQuoted
                   else UnterminatedQuotedArgument) s2"
      and t2: "stack s2
          = stack (SyntaxChecker (''[b '' @ dquote # ''abc'' @ [backquote]) {} {''b''} True)"
    by blast
  from e2 c(4) have "check (SyntaxChecker (''[b '' @ dquote # ''abc'' @ [backquote]) {} {''b''} True)
          = error DanglingEscapeQuoted s2"
    by (simp only: if_True)
  moreover from t2 have "stack s2 = []" by (simp only: s0)
  ultimately have b: "\<exists>s1. check (SyntaxChecker (''[b '' @ dquote # ''abc'' @ [backquote]) {} {''b''} True)
          = error DanglingEscapeQuoted s1 \<and> stack s1 = []"
    by blast
  from tag_prefix_b c a b show ?thesis by blast
qed


text \<open>
  C5. At top level and in the argument loop of a tag, an escape pair is literal text
  whatever its second character is, a bracket, a double quote or the escape marker
  included. Take two runs of \<open>check\<close> from states with the same tag sets, stack, mode
  and output, whose remaining inputs differ in one literal unit only, an escape pair or an
  ordinary character, at a place where the scan stands at top level or in the argument
  loop. Both runs are accepted or both are rejected, with the same message and the same
  stack; only lines and columns may differ.
\<close>

theorem escaped_is_literal:
  "single_tags s1 = single_tags s2 \<Longrightarrow> group_tags s1 = group_tags s2 \<Longrightarrow>
   stack s1 = stack s2 \<Longrightarrow> raise_exception s1 = raise_exception s2 \<Longrightarrow>
   stdout s1 = stdout s2 \<Longrightarrow>
   scan_context in_arg p \<Longrightarrow> literal_unit in_arg e1 \<Longrightarrow> literal_unit in_arg e2 \<Longrightarrow>
   drop (pos s1) (code s1) = p @ e1 @ v \<Longrightarrow> drop (pos s2) (code s2) = p @ e2 @ v \<Longrightarrow>
   summary (check s1) = summary (check s2)"
proof -
  assume a: "single_tags s1 = single_tags s2" "group_tags s1 = group_tags s2"
    "stack s1 = stack s2" and f: "raise_exception s1 = raise_exception s2"
    "stdout s1 = stdout s2"
    and c: "scan_context in_arg p" "literal_unit in_arg e1" "literal_unit in_arg e2"
    and d: "drop (pos s1) (code s1) = p @ e1 @ v" "drop (pos s2) (code s2) = p @ e2 @ v"
  from d have r: "rest s1 = p @ e1 @ v" "rest s2 = p @ e2 @ v" by (simp_all add: rest_def)
  have "forget (verdict (single_tags s1) (group_tags s1) (stack s1) (rest s1))
      = forget (verdict (single_tags s2) (group_tags s2) (stack s2) (rest s2))"
    unfolding a r by (rule forget_verdict) (rule run_literal [OF c])
  from summary_result [OF this f] show ?thesis by (simp add: check_eq)
qed


theorem escaped_is_literal_witness:
  "scan_context True ''[b a'' \<and> literal_unit True [backquote, CHR '']''] \<and> literal_unit True ''x''
   \<and> summary (check (SyntaxChecker (''[b a'' @ [backquote, CHR '']''] @ ''c][/b]'') {} {''b''} False))
     = summary (check (SyntaxChecker (''[b a'' @ ''x'' @ ''c][/b]'') {} {''b''} False))
   \<and> summary (check (SyntaxChecker (''[b a'' @ ''x'' @ ''c][/b]'') {} {''b''} False))
     = Inr (True, [], [])
   \<and> scan_context False [] \<and> literal_unit False [backquote, CHR ''['']
   \<and> summary (check (SyntaxChecker ([] @ [backquote, CHR ''[''] @ ''b]'') {} {''b''} True))
     = summary (check (SyntaxChecker ([] @ ''x'' @ ''b]'') {} {''b''} True))"
proof -
  have i: "items '' a''"
    by (intro items_space items_plain items_Nil)
       (simp_all add: is_whitespace_def plain_def dquote_def backquote_def)
  then have "tail_ok '' a''" by (simp add: tail_ok_def is_whitespace_def)
  moreover have "valid_name ''b''" by (simp add: valid_name_def name_start_def isalnum_def)
  ultimately have "tag_prefix False ''b'' ''[b a''"
    unfolding tag_prefix_def by (intro conjI exI [of _ "'' a''"]) simp_all
  then have c1: "scan_context True ''[b a''" unfolding scan_context_def by auto
  have c2: "scan_context False []" by (simp add: scan_context_def)
  have l: "literal_unit True [backquote, CHR '']'']" "literal_unit True ''x''"
    "literal_unit False [backquote, CHR ''['']" "literal_unit False ''x''"
    by (simp_all add: literal_unit_def plain_def is_whitespace_def dquote_def backquote_def)
  have f: "\<And>t u r. single_tags (SyntaxChecker t {} {''b''} r) = single_tags (SyntaxChecker u {} {''b''} r)"
    "\<And>t u r. group_tags (SyntaxChecker t {} {''b''} r) = group_tags (SyntaxChecker u {} {''b''} r)"
    "\<And>t u r. stack (SyntaxChecker t {} {''b''} r) = stack (SyntaxChecker u {} {''b''} r)"
    "\<And>t u r. raise_exception (SyntaxChecker t {} {''b''} r) = raise_exception (SyntaxChecker u {} {''b''} r)"
    "\<And>t u r. stdout (SyntaxChecker t {} {''b''} r) = stdout (SyntaxChecker u {} {''b''} r)"
    by (simp_all add: SyntaxChecker_def)
  have d: "\<And>t r. drop (pos (SyntaxChecker t {} {''b''} r)) (code (SyntaxChecker t {} {''b''} r)) = t"
    by (simp add: SyntaxChecker_def)
  have a: "summary (check (SyntaxChecker (''[b a'' @ [backquote, CHR '']''] @ ''c][/b]'') {} {''b''} False))
     = summary (check (SyntaxChecker (''[b a'' @ ''x'' @ ''c][/b]'') {} {''b''} False))"
    by (rule escaped_is_literal [OF f c1 l(1,2) d d])
  have b: "summary (check (SyntaxChecker ([] @ [backquote, CHR ''[''] @ ''b]'') {} {''b''} True))
     = summary (check (SyntaxChecker ([] @ ''x'' @ ''b]'') {} {''b''} True))"
    by (rule escaped_is_literal [OF f c2 l(3,4) d d])
  have e: "summary (check (SyntaxChecker (''[b a'' @ ''x'' @ ''c][/b]'') {} {''b''} False))
     = Inr (True, [], [])"
    by code_simp
  from c1 c2 l a b e show ?thesis by blast
qed

end
